theory Spec2Isabelle
  imports Main
begin

section \<open>Values of the program\<close>

text \<open>
  The program is \<^verbatim>\<open>automator/connector/ADBClientSession.py\<close>: a client of the ADB
  host-server protocol. A Python \<^verbatim>\<open>bytes\<close> object is a list of 8-bit characters; a
  Python \<^verbatim>\<open>str\<close> is a list of Unicode code points (numbers up to \<^verbatim>\<open>0x10FFFF\<close>), so
  that \<^verbatim>\<open>len\<close> counts what Python counts in either case.
\<close>

type_synonym bytes = "char list"

type_synonym ustr = "nat list"

text \<open>A \<^verbatim>\<open>str\<close> literal of the source, written with ASCII characters.\<close>

definition str :: "string \<Rightarrow> ustr" where
  "str s = map of_char s"

text \<open>
  Exceptions are values. \<open>RuntimeError\<close> and \<open>ValueError\<close> are the two classes the
  source raises itself, each with the argument it is raised with (the specification calls
  them \<^verbatim>\<open>ProtocolError\<close> and \<^verbatim>\<open>InvalidArgument\<close>). The others are raised by the
  library calls the source makes: \<open>InvalidLiteral b\<close> is the \<^verbatim>\<open>ValueError\<close> of
  \<^verbatim>\<open>int(b, 16)\<close> on bytes \<open>b\<close> that are no hexadecimal literal, \<open>StructError\<close> is
  \<^verbatim>\<open>struct.error\<close>, \<open>OSError\<close> is the error of using a closed socket, and
  \<open>ConnectionError\<close> is the failure of \<^verbatim>\<open>recvexactly\<close> when the peer closes early,
  and \<open>BroadcastError\<close> is the \<^verbatim>\<open>ValueError\<close> of numpy when an array is assigned to a
  slice that is too short for it.
\<close>

datatype pyval = Bytes bytes | Str ustr

datatype error =
    RuntimeError pyval
  | ValueError pyval
  | InvalidLiteral bytes
  | UnicodeEncodeError
  | UnicodeDecodeError
  | StructError
  | OSError
  | ConnectionError
  | BroadcastError

section \<open>Library calls of the source\<close>

subsection \<open>\<^verbatim>\<open>str.encode()\<close>: UTF-8\<close>

text \<open>
  One code point becomes one to four bytes; a surrogate (\<^verbatim>\<open>0xD800\<close> to \<^verbatim>\<open>0xDFFF\<close>) cannot
  be encoded and raises \<^verbatim>\<open>UnicodeEncodeError\<close>.
\<close>

definition encode_cp :: "nat \<Rightarrow> error + nat list" where
  "encode_cp cp =
     (if cp < 0x80 then Inr [cp]
      else if cp < 0x800 then Inr [0xC0 + cp div 64, 0x80 + cp mod 64]
      else if 0xD800 \<le> cp \<and> cp \<le> 0xDFFF then Inl UnicodeEncodeError
      else if cp < 0x10000 then
        Inr [0xE0 + cp div 4096, 0x80 + cp div 64 mod 64, 0x80 + cp mod 64]
      else
        Inr [0xF0 + cp div 262144, 0x80 + cp div 4096 mod 64,
             0x80 + cp div 64 mod 64, 0x80 + cp mod 64])"

fun encode :: "ustr \<Rightarrow> error + bytes" where
  "encode [] = Inr []"
| "encode (cp # t) =
     (case encode_cp cp of
        Inl e \<Rightarrow> Inl e
      | Inr bs \<Rightarrow> (case encode t of Inl e \<Rightarrow> Inl e | Inr r \<Rightarrow> Inr (map char_of bs @ r)))"

subsection \<open>\<^verbatim>\<open>'%04X' % n\<close> and \<^verbatim>\<open>'%d' % n\<close>\<close>

definition hexdigit :: "nat \<Rightarrow> char" where
  "hexdigit d = ''0123456789ABCDEF'' ! d"

fun hex_digits :: "nat \<Rightarrow> string" where
  "hex_digits n =
     (if n < 16 then [hexdigit n] else hex_digits (n div 16) @ [hexdigit (n mod 16)])"

declare hex_digits.simps [simp del]

text \<open>Upper-case hexadecimal, padded with zeros to at least four digits.\<close>

definition fmt_04X :: "nat \<Rightarrow> bytes" where
  "fmt_04X n = replicate (4 - length (hex_digits n)) (CHR ''0'') @ hex_digits n"

definition decdigit :: "nat \<Rightarrow> char" where
  "decdigit d = ''0123456789'' ! d"

fun dec_digits :: "nat \<Rightarrow> string" where
  "dec_digits n =
     (if n < 10 then [decdigit n] else dec_digits (n div 10) @ [decdigit (n mod 10)])"

declare dec_digits.simps [simp del]

definition fmt_d :: "int \<Rightarrow> bytes" where
  "fmt_d i = (if i < 0 then CHR ''-'' # dec_digits (nat (- i)) else dec_digits (nat i))"

subsection \<open>\<^verbatim>\<open>int(b, 16)\<close> on bytes\<close>

text \<open>
  Python accepts more than four hexadecimal digits here: white space around the literal,
  a sign, the prefix \<^verbatim>\<open>0x\<close>, and single underscores between digits. Everything else,
  also a NUL byte, is an invalid literal.
\<close>

definition isspace :: "char \<Rightarrow> bool" where
  "isspace c = (c \<in> set [CHR 0x09, CHR 0x0A, CHR 0x0B, CHR 0x0C, CHR 0x0D, CHR 0x20])"

text \<open>The value of a byte as a digit; 37 for a byte that is no digit in any base.\<close>

definition digit_value :: "char \<Rightarrow> nat" where
  "digit_value c =
     (let n = of_char c :: nat in
      if 48 \<le> n \<and> n \<le> 57 then n - 48
      else if 97 \<le> n \<and> n \<le> 122 then n - 87
      else if 65 \<le> n \<and> n \<le> 90 then n - 55
      else 37)"

text \<open>
  The scan over the digits: \<open>prev\<close> is the byte before. Two underscores in a row and an
  underscore at the end are errors (\<open>None\<close>); otherwise the value and what follows the
  digits.
\<close>

fun scan_digits :: "nat \<Rightarrow> char \<Rightarrow> bytes \<Rightarrow> (nat \<times> bytes) option" where
  "scan_digits acc prev [] = (if prev = CHR ''_'' then None else Some (acc, []))"
| "scan_digits acc prev (c # cs) =
     (if c = CHR ''_'' then (if prev = CHR ''_'' then None else scan_digits acc c cs)
      else if digit_value c < 16 then scan_digits (acc * 16 + digit_value c) c cs
      else if prev = CHR ''_'' then None
      else Some (acc, c # cs))"

definition strip_sign :: "bytes \<Rightarrow> bool \<times> bytes" where
  "strip_sign b =
     (case b of
        [] \<Rightarrow> (False, b)
      | c # r \<Rightarrow> if c = CHR ''+'' then (False, r) else if c = CHR ''-'' then (True, r)
                 else (False, b))"

definition strip_0x :: "bytes \<Rightarrow> bytes" where
  "strip_0x b =
     (case b of
        c0 # c1 # r \<Rightarrow>
          if c0 = CHR ''0'' \<and> (c1 = CHR ''x'' \<or> c1 = CHR ''X'') then
            (case r of [] \<Rightarrow> r | u # r' \<Rightarrow> if u = CHR ''_'' then r' else r)
          else b
      | _ \<Rightarrow> b)"

definition int16 :: "bytes \<Rightarrow> error + int" where
  "int16 b =
     (let (neg, s2) = strip_sign (dropWhile isspace b);
          s3 = strip_0x s2
      in case s3 of
           [] \<Rightarrow> Inl (InvalidLiteral b)
         | c # _ \<Rightarrow>
             if c = CHR ''_'' then Inl (InvalidLiteral b)
             else (case scan_digits 0 (CHR 0x00) s3 of
                     None \<Rightarrow> Inl (InvalidLiteral b)
                   | Some (v, rest) \<Rightarrow>
                       if rest = s3 then Inl (InvalidLiteral b)
                       else if dropWhile isspace rest \<noteq> [] then Inl (InvalidLiteral b)
                       else Inr (if neg then - int v else int v)))"

subsection \<open>\<^verbatim>\<open>bytes.decode()\<close>: UTF-8\<close>

text \<open>
  The decoder looks at the bytes from the left. \<open>Decoded cp n\<close>: the first \<open>n\<close> bytes are
  the code point \<open>cp\<close>. \<open>Invalid n\<close>: the first \<open>n\<close> bytes are an error (an invalid
  start byte, an invalid continuation byte after \<open>n\<close> bytes, or the end of the data
  inside a sequence). Encodings longer than needed, surrogates and code points beyond
  \<^verbatim>\<open>0x10FFFF\<close> are errors.
\<close>

definition cont :: "nat \<Rightarrow> bool" where
  "cont b = (0x80 \<le> b \<and> b < 0xC0)"

datatype utf8_step = Decoded nat nat | Invalid nat

fun utf8_first :: "nat list \<Rightarrow> utf8_step" where
  "utf8_first [] = Invalid 0"
| "utf8_first (ch # r) =
     (if ch < 0x80 then Decoded ch 1
      else if ch < 0xC2 then Invalid 1
      else if ch < 0xE0 then
        (case r of
           [] \<Rightarrow> Invalid 1
         | ch2 # _ \<Rightarrow>
             if \<not> cont ch2 then Invalid 1
             else Decoded (ch mod 32 * 64 + ch2 mod 64) 2)
      else if ch < 0xF0 then
        (case r of
           [] \<Rightarrow> Invalid 1
         | [ch2] \<Rightarrow>
             if \<not> cont ch2 \<or> (if ch2 < 0xA0 then ch = 0xE0 else ch = 0xED) then Invalid 1
             else Invalid 2
         | ch2 # ch3 # _ \<Rightarrow>
             if \<not> cont ch2 then Invalid 1
             else if ch = 0xE0 \<and> ch2 < 0xA0 then Invalid 1
             else if ch = 0xED \<and> 0xA0 \<le> ch2 then Invalid 1
             else if \<not> cont ch3 then Invalid 2
             else Decoded (ch mod 16 * 4096 + ch2 mod 64 * 64 + ch3 mod 64) 3)
      else if ch < 0xF5 then
        (case r of
           [] \<Rightarrow> Invalid 1
         | [ch2] \<Rightarrow>
             if \<not> cont ch2 \<or> (if ch2 < 0x90 then ch = 0xF0 else ch = 0xF4) then Invalid 1
             else Invalid 2
         | [ch2, ch3] \<Rightarrow>
             if \<not> cont ch2 \<or> (if ch2 < 0x90 then ch = 0xF0 else ch = 0xF4) then Invalid 1
             else if \<not> cont ch3 then Invalid 2
             else Invalid 3
         | ch2 # ch3 # ch4 # _ \<Rightarrow>
             if \<not> cont ch2 then Invalid 1
             else if ch = 0xF0 \<and> ch2 < 0x90 then Invalid 1
             else if ch = 0xF4 \<and> 0x90 \<le> ch2 then Invalid 1
             else if \<not> cont ch3 then Invalid 2
             else if \<not> cont ch4 then Invalid 3
             else Decoded (ch mod 8 * 262144 + ch2 mod 64 * 4096 + ch3 mod 64 * 64
                           + ch4 mod 64) 4)
      else Invalid 1)"

text \<open>
  The whole input: a code point or, for an error, \<open>None\<close>, and on with the bytes after
  it. A step on a non-empty input takes at least one byte, so \<open>n - 1\<close> of the bytes
  after the first are dropped.
\<close>

fun utf8_scan :: "nat list \<Rightarrow> nat option list" where
  "utf8_scan [] = []"
| "utf8_scan (b # bs) =
     (case utf8_first (b # bs) of
        Decoded cp n \<Rightarrow> Some cp # utf8_scan (drop (n - 1) bs)
      | Invalid n \<Rightarrow> None # utf8_scan (drop (n - 1) bs))"

text \<open>\<^verbatim>\<open>b.decode()\<close> raises at an error; \<^verbatim>\<open>b.decode(errors='ignore')\<close> leaves it out.\<close>

definition decode :: "bytes \<Rightarrow> error + ustr" where
  "decode b =
     (case those (utf8_scan (map of_char b)) of
        None \<Rightarrow> Inl UnicodeDecodeError
      | Some t \<Rightarrow> Inr t)"

definition decode_ignore :: "bytes \<Rightarrow> ustr" where
  "decode_ignore b = List.map_filter (\<lambda>x. x) (utf8_scan (map of_char b))"

subsection \<open>\<^verbatim>\<open>str.splitlines()\<close>, \<^verbatim>\<open>str.split(sep)\<close> and \<^verbatim>\<open>sub in s\<close>\<close>

text \<open>
  A line ends at a line feed, a carriage return (with the line feed that follows it, if
  one does), or one of the other line boundaries of Python. The end of the last line
  does not start an empty line.
\<close>

definition is_linebreak :: "nat \<Rightarrow> bool" where
  "is_linebreak c =
     (c \<in> set [0x0A, 0x0B, 0x0C, 0x0D, 0x1C, 0x1D, 0x1E, 0x85, 0x2028, 0x2029])"

definition skip_break :: "ustr \<Rightarrow> ustr" where
  "skip_break rest =
     (case rest of
        [] \<Rightarrow> []
      | b # r \<Rightarrow>
          (case r of
             [] \<Rightarrow> r
           | n # r' \<Rightarrow> if b = 0x0D \<and> n = 0x0A then r' else r))"

function splitlines :: "ustr \<Rightarrow> ustr list" where
  "splitlines [] = []"
| "splitlines (c # cs) =
     takeWhile (\<lambda>x. \<not> is_linebreak x) (c # cs) #
     splitlines (skip_break (dropWhile (\<lambda>x. \<not> is_linebreak x) (c # cs)))"
  by pat_completeness auto
termination
proof (relation "measure length")
  show "wf (measure length)" by simp
next
  fix c :: nat and cs :: "nat list"
  let ?rest = "dropWhile (\<lambda>x. \<not> is_linebreak x) (c # cs)"
  have "length (skip_break ?rest) < length (c # cs)"
  proof (cases ?rest)
    case Nil
    then show ?thesis by (simp add: skip_break_def)
  next
    case (Cons b r)
    have "length ?rest \<le> length (c # cs)" by (rule length_dropWhile_le)
    moreover have "length (skip_break ?rest) < length ?rest"
      unfolding Cons by (simp add: skip_break_def split: list.splits)
    ultimately show ?thesis by simp
  qed
  then show "(skip_break ?rest, c # cs) \<in> measure length" by simp
qed

declare splitlines.simps(2) [simp del]

text \<open>\<^verbatim>\<open>s.split(sep)\<close> for a separator of one character: the fields between the separators.\<close>

fun split_sep :: "'a \<Rightarrow> 'a list \<Rightarrow> 'a list list" where
  "split_sep sep [] = [[]]"
| "split_sep sep (x # xs) =
     (if x = sep then [] # split_sep sep xs
      else (case split_sep sep xs of
              [] \<Rightarrow> [[x]]
            | f # fs \<Rightarrow> (x # f) # fs))"

text \<open>\<^verbatim>\<open>sub in s\<close>: \<open>sub\<close> occurs in \<open>s\<close> at some position.\<close>

fun contains :: "'a list \<Rightarrow> 'a list \<Rightarrow> bool" where
  "contains [] sub = (sub = [])"
| "contains (x # xs) sub = (take (length sub) (x # xs) = sub \<or> contains xs sub)"

section \<open>The connection\<close>

text \<open>
  The session owns one socket. Its state is what has been written to it (one entry per
  call of \<^verbatim>\<open>send\<close> or \<^verbatim>\<open>sendall\<close>, in order), the bytes the peer delivers before it
  closes its side, and whether the client has closed it. A call on a closed socket raises
  \<^verbatim>\<open>OSError\<close>. A write is taken to transmit all of its data.
\<close>

record sock =
  written :: "bytes list"
  incoming :: bytes
  closed :: bool

definition send :: "sock \<Rightarrow> bytes \<Rightarrow> (error + unit) \<times> sock" where
  "send s d =
     (if closed s then (Inl OSError, s) else (Inr (), s\<lparr>written := written s @ [d]\<rparr>))"

definition sendall :: "sock \<Rightarrow> bytes \<Rightarrow> (error + unit) \<times> sock" where
  "sendall s d = send s d"

definition close :: "sock \<Rightarrow> sock" where
  "close s = s\<lparr>closed := True\<rparr>"

text \<open>
  Modelled from the spec: \<^verbatim>\<open>util.socketutil.recvexactly\<close> is imported by the source and is
  not part of it. It reads exactly \<open>n\<close> bytes and fails if the peer closes before \<open>n\<close>
  bytes arrive. The specification says nothing about a negative count; here it fails
  without reading.
\<close>

definition recvexactly :: "sock \<Rightarrow> int \<Rightarrow> (error + bytes) \<times> sock" where
  "recvexactly s n =
     (if closed s then (Inl OSError, s)
      else if n < 0 then (Inl ConnectionError, s)
      else if length (incoming s) < nat n then (Inl ConnectionError, s\<lparr>incoming := []\<rparr>)
      else (Inr (take (nat n) (incoming s)), s\<lparr>incoming := drop (nat n) (incoming s)\<rparr>))"

text \<open>
  Modelled from the spec: \<^verbatim>\<open>util.socketutil.recvall\<close>, likewise imported, reads to the
  end of the stream.
\<close>

definition recvall :: "sock \<Rightarrow> (error + bytes) \<times> sock" where
  "recvall s =
     (if closed s then (Inl OSError, s) else (Inr (incoming s), s\<lparr>incoming := []\<rparr>))"

section \<open>Service requests and status replies\<close>

text \<open>\<^verbatim>\<open>_read_hexlen(sock)\<close>\<close>

definition read_hexlen :: "sock \<Rightarrow> (error + bytes) \<times> sock" where
  "read_hexlen s =
     (case recvexactly s 4 of
        (Inl e, s1) \<Rightarrow> (Inl e, s1)
      | (Inr b, s1) \<Rightarrow>
          (case int16 b of
             Inl e \<Rightarrow> (Inl e, s1)
           | Inr textlen \<Rightarrow> if textlen = 0 then (Inr [], s1) else recvexactly s1 textlen))"

text \<open>\<^verbatim>\<open>_check_okay(sock)\<close>\<close>

definition check_okay :: "sock \<Rightarrow> (error + unit) \<times> sock" where
  "check_okay s =
     (case recvexactly s 4 of
        (Inl e, s1) \<Rightarrow> (Inl e, s1)
      | (Inr result, s1) \<Rightarrow>
          if result \<noteq> ''OKAY'' then
            (case read_hexlen s1 of
               (Inl e, s2) \<Rightarrow> (Inl e, s2)
             | (Inr msg, s2) \<Rightarrow> (Inl (RuntimeError (Bytes msg)), s2))
          else (Inr (), s1))"

text \<open>The request that \<^verbatim>\<open>service\<close> writes for the encoded command.\<close>

definition frame :: "bytes \<Rightarrow> bytes" where
  "frame cmdbytes = fmt_04X (length cmdbytes) @ cmdbytes"

definition service :: "sock \<Rightarrow> ustr \<Rightarrow> (error + unit) \<times> sock" where
  "service s cmd =
     (case encode cmd of
        Inl e \<Rightarrow> (Inl e, s)
      | Inr cmdbytes \<Rightarrow>
          (case send s (frame cmdbytes) of
             (Inl e, s1) \<Rightarrow> (Inl e, s1)
           | (Inr _, s1) \<Rightarrow> check_okay s1))"

definition read_response :: "sock \<Rightarrow> (error + bytes) \<times> sock" where
  "read_response s = read_hexlen s"

section \<open>The devices the server knows\<close>

text \<open>
  A tuple of \<^verbatim>\<open>devices\<close> is the list of its components: \<^verbatim>\<open>tuple(line.split('\t'))\<close> has
  as many as the line has fields.
\<close>

definition devices :: "sock \<Rightarrow> (error + ustr list list) \<times> sock" where
  "devices s =
     (case service s (str ''host:devices'') of
        (Inl e, s1) \<Rightarrow> (Inl e, s1)
      | (Inr _, s1) \<Rightarrow>
          (case read_response s1 of
             (Inl e, s2) \<Rightarrow> (Inl e, s2)
           | (Inr r, s2) \<Rightarrow>
               (case decode r of
                  Inl e \<Rightarrow> (Inl e, s2)
                | Inr resp \<Rightarrow> (Inr (map (split_sep 0x09) (splitlines resp)), s2))))"

definition connect :: "sock \<Rightarrow> ustr \<Rightarrow> (error + unit) \<times> sock" where
  "connect s device =
     (case service s (str ''host:connect:'' @ device) of
        (Inl e, s1) \<Rightarrow> (Inl e, s1)
      | (Inr _, s1) \<Rightarrow>
          (case read_response s1 of
             (Inl e, s2) \<Rightarrow> (Inl e, s2)
           | (Inr r, s2) \<Rightarrow>
               (let resp = decode_ignore r
                in if contains resp (str ''unable'') \<or> contains resp (str ''cannot'') then
                     (Inl (RuntimeError (Str resp)), s2)
                   else (Inr (), s2))))"

definition disconnect :: "sock \<Rightarrow> ustr \<Rightarrow> (error + unit) \<times> sock" where
  "disconnect s device =
     (case service s (str ''host:disconnect:'' @ device) of
        (Inl e, s1) \<Rightarrow> (Inl e, s1)
      | (Inr _, s1) \<Rightarrow>
          (case read_response s1 of
             (Inl e, s2) \<Rightarrow> (Inl e, s2)
           | (Inr r, s2) \<Rightarrow>
               (let resp = decode_ignore r
                in if contains resp (str ''unable'') \<or> contains resp (str ''cannot'') then
                     (Inl (RuntimeError (Str resp)), s2)
                   else (Inr (), s2))))"

section \<open>Running commands\<close>

text \<open>
  The streaming calls have the default argument \<^verbatim>\<open>cmd=''\<close>: \<open>None\<close> is a call that
  leaves the command out. They return the session's socket, here the state it is in.
\<close>

definition exec_stream :: "sock \<Rightarrow> ustr option \<Rightarrow> (error + sock) \<times> sock" where
  "exec_stream s cmd_arg =
     (let cmd = (case cmd_arg of None \<Rightarrow> str '''' | Some c \<Rightarrow> c)
      in case service s (str ''exec:'' @ cmd) of
           (Inl e, s1) \<Rightarrow> (Inl e, s1)
         | (Inr _, s1) \<Rightarrow> (Inr s1, s1))"

definition exec :: "sock \<Rightarrow> ustr \<Rightarrow> (error + bytes) \<times> sock" where
  "exec s cmd =
     (if length cmd = 0 then
        (Inl (ValueError (Str (str ''no command specified for blocking exec''))), s)
      else
        (case exec_stream s (Some cmd) of
           (Inl e, s1) \<Rightarrow> (Inl e, s1)
         | (Inr _, s1) \<Rightarrow>
             (case recvall s1 of
                (Inl e, s2) \<Rightarrow> (Inl e, s2)
              | (Inr data, s2) \<Rightarrow> (Inr data, close s2))))"

definition shell_stream :: "sock \<Rightarrow> ustr option \<Rightarrow> (error + sock) \<times> sock" where
  "shell_stream s cmd_arg =
     (let cmd = (case cmd_arg of None \<Rightarrow> str '''' | Some c \<Rightarrow> c)
      in case service s (str ''shell:'' @ cmd) of
           (Inl e, s1) \<Rightarrow> (Inl e, s1)
         | (Inr _, s1) \<Rightarrow> (Inr s1, s1))"

definition shell :: "sock \<Rightarrow> ustr \<Rightarrow> (error + bytes) \<times> sock" where
  "shell s cmd =
     (if length cmd = 0 then
        (Inl (ValueError (Str (str ''no command specified for blocking shell''))), s)
      else
        (case shell_stream s (Some cmd) of
           (Inl e, s1) \<Rightarrow> (Inl e, s1)
         | (Inr _, s1) \<Rightarrow>
             (case recvall s1 of
                (Inl e, s2) \<Rightarrow> (Inl e, s2)
              | (Inr data, s2) \<Rightarrow> (Inr data, close s2))))"

section \<open>Pushing a file\<close>

subsection \<open>\<^verbatim>\<open>struct.pack("<I", n)\<close>\<close>

text \<open>Four bytes, the least significant first; a number outside 32 bits raises.\<close>

definition le32 :: "nat \<Rightarrow> bytes" where
  "le32 n = [char_of n, char_of (n div 256), char_of (n div 65536), char_of (n div 16777216)]"

definition pack_I :: "int \<Rightarrow> error + bytes" where
  "pack_I x = (if 0 \<le> x \<and> x < 4294967296 then Inr (le32 (nat x)) else Inl StructError)"

subsection \<open>\<^verbatim>\<open>np.arange\<close> and \<^verbatim>\<open>np.array_split\<close>\<close>

text \<open>
  \<^verbatim>\<open>np.arange(start, stop, step)\<close> for a positive step: \<open>start\<close>, \<open>start + step\<close>, and
  so on, below \<open>stop\<close>.
\<close>

definition arange :: "nat \<Rightarrow> nat \<Rightarrow> nat \<Rightarrow> nat list" where
  "arange start stop step =
     map (\<lambda>k. start + k * step) [0 ..< (stop - start + step - 1) div step]"

text \<open>
  \<^verbatim>\<open>np.array_split(ary, indices)\<close> with a list of indices: the division points are 0,
  the indices and the length, and every two neighbours \<open>st\<close>, \<open>en\<close> give the
  sub-array \<^verbatim>\<open>ary[st:en]\<close>. There is one sub-array more than there are indices.
\<close>

fun slices :: "'a list \<Rightarrow> nat list \<Rightarrow> 'a list list" where
  "slices ary (st # en # ps) = drop st (take en ary) # slices ary (en # ps)"
| "slices ary ps = []"

definition array_split :: "'a list \<Rightarrow> nat list \<Rightarrow> 'a list list" where
  "array_split ary indices = slices ary (0 # indices @ [length ary])"

subsection \<open>\<^verbatim>\<open>push\<close>\<close>

text \<open>The sub-packet that the loop of \<^verbatim>\<open>push\<close> writes for one sub-array.\<close>

definition data_packet :: "bytes \<Rightarrow> bytes" where
  "data_packet arr = ''DATA'' @ le32 (length arr) @ arr"

text \<open>
  The loop over the sub-arrays. The send buffer has room for 65536 bytes of payload; a
  longer sub-array cannot be stored in it, numpy raises and nothing is written for it.
\<close>

fun send_chunks :: "sock \<Rightarrow> bytes list \<Rightarrow> (error + unit) \<times> sock" where
  "send_chunks s [] = (Inr (), s)"
| "send_chunks s (arr # arrs) =
     (if 65536 < length arr then (Inl BroadcastError, s)
      else (case sendall s (data_packet arr) of
              (Inl e, s1) \<Rightarrow> (Inl e, s1)
            | (Inr _, s1) \<Rightarrow> send_chunks s1 arrs))"

text \<open>
  \<open>now\<close> is what \<^verbatim>\<open>int(time.time())\<close> returns when it is called. The arguments
  \<open>mode\<close> and \<open>mtime\<close> have defaults: \<open>None\<close> is a call that leaves them out. The
  buffer is given by its bytes, which is what \<^verbatim>\<open>np.frombuffer(buffer, dtype=np.uint8)\<close>
  makes of it; the sub-arrays are those of \<^verbatim>\<open>np.array_split\<close> at the indices 65536,
  131072 and so on below the size.
\<close>

definition push ::
  "int \<Rightarrow> sock \<Rightarrow> ustr \<Rightarrow> bytes \<Rightarrow> int option \<Rightarrow> int option \<Rightarrow> (error + unit) \<times> sock" where
  "push now s target_path buffer mode_arg mtime_arg =
     (let mode = (case mode_arg of None \<Rightarrow> 33261 | Some m \<Rightarrow> m) in
      case service s (str ''sync:'') of
        (Inl e, s1) \<Rightarrow> (Inl e, s1)
      | (Inr _, s1) \<Rightarrow>
      (case encode target_path of
        Inl e \<Rightarrow> (Inl e, s1)
      | Inr path \<Rightarrow>
      (let request = path @ '','' @ fmt_d mode in
       case pack_I (int (length request)) of
        Inl e \<Rightarrow> (Inl e, s1)
      | Inr len \<Rightarrow>
      (case send s1 (''SEND'' @ len @ request) of
        (Inl e, s2) \<Rightarrow> (Inl e, s2)
      | (Inr _, s2) \<Rightarrow>
      (case send_chunks s2 (array_split buffer (arange 65536 (length buffer) 65536)) of
        (Inl e, s3) \<Rightarrow> (Inl e, s3)
      | (Inr _, s3) \<Rightarrow>
      (let mtime = (case mtime_arg of None \<Rightarrow> now | Some m \<Rightarrow> m) in
       case pack_I mtime of
        Inl e \<Rightarrow> (Inl e, s3)
      | Inr mt \<Rightarrow>
      (case sendall s3 (''DONE'' @ mt) of
        (Inl e, s4) \<Rightarrow> (Inl e, s4)
      | (Inr _, s4) \<Rightarrow>
      (case recvexactly s4 8 of
        (Inl e, s5) \<Rightarrow> (Inl e, s5)
      | (Inr response, s5) \<Rightarrow>
          if take 4 response \<noteq> ''OKAY'' then
            (Inl (RuntimeError (Str (str ''push failed''))), close s5)
          else (Inr (), close s5)))))))))"

section \<open>The chunks of the specification\<close>

text \<open>
  Following the specification's words: the buffer is sent in chunks whose boundaries are
  at fixed 65536-byte offsets, the final chunk may be shorter, and an empty buffer yields
  no chunk.
\<close>

definition spec_chunks :: "bytes \<Rightarrow> bytes list" where
  "spec_chunks buf =
     map (\<lambda>i. take 65536 (drop (i * 65536) buf)) [0 ..< (length buf + 65535) div 65536]"

section \<open>The device list of the specification\<close>

text \<open>
  Following the specification's words: the devices are reported one per line, serial and
  state separated by a tab, every line ended by a newline. A serial or state is plain
  when it holds no tab and no line boundary.
\<close>

definition device_lines :: "(ustr \<times> ustr) list \<Rightarrow> ustr" where
  "device_lines ds = concat (map (\<lambda>(serial, state). serial @ [0x09] @ state @ [0x0A]) ds)"

definition plain :: "ustr \<Rightarrow> bool" where
  "plain t = (\<forall>c\<in>set t. c \<noteq> 0x09 \<and> \<not> is_linebreak c)"

section \<open>Notions for the proofs\<close>

text \<open>
  A list of writes is bounded when each of its entries that starts with the tag
  \<^verbatim>\<open>DATA\<close> is that tag, the little-endian length of a payload, and the payload, of at
  most 65536 bytes. A connection state extends another when it has written some more,
  and what it has written more is bounded.
\<close>

definition data_bounded :: "bytes list \<Rightarrow> bool" where
  "data_bounded ps =
     (\<forall>p\<in>set ps. take 4 p = ''DATA'' \<longrightarrow>
        (\<exists>c. p = ''DATA'' @ le32 (length c) @ c \<and> length c \<le> 65536))"

definition extends :: "sock \<Rightarrow> sock \<Rightarrow> bool" where
  "extends s s' = (\<exists>ex. written s' = written s @ ex \<and> data_bounded ex)"

section \<open>Properties\<close>

subsection \<open>What the framing calls leave unchanged\<close>

lemma recvexactly_written [simp]: "written (snd (recvexactly s n)) = written s"
  by (simp add: recvexactly_def)

lemma recvexactly_closed [simp]: "closed (snd (recvexactly s n)) = closed s"
  by (simp add: recvexactly_def)

lemma read_hexlen_written [simp]: "written (snd (read_hexlen s)) = written s"
  by (simp add: read_hexlen_def recvexactly_def split: prod.splits sum.splits)

lemma read_hexlen_closed [simp]: "closed (snd (read_hexlen s)) = closed s"
  by (simp add: read_hexlen_def recvexactly_def split: prod.splits sum.splits)

lemma check_okay_written [simp]: "written (snd (check_okay s)) = written s"
proof -
  obtain r s1 where a: "recvexactly s 4 = (r, s1)" by (cases "recvexactly s 4")
  then have w1: "written s1 = written s" by (metis recvexactly_written snd_conv)
  obtain m s2 where b: "read_hexlen s1 = (m, s2)" by (cases "read_hexlen s1")
  then have w2: "written s2 = written s1" by (metis read_hexlen_written snd_conv)
  show ?thesis
    using a b w1 w2 by (simp add: check_okay_def split: sum.splits)
qed

lemma check_okay_closed [simp]: "closed (snd (check_okay s)) = closed s"
proof -
  obtain r s1 where a: "recvexactly s 4 = (r, s1)" by (cases "recvexactly s 4")
  then have w1: "closed s1 = closed s" by (metis recvexactly_closed snd_conv)
  obtain m s2 where b: "read_hexlen s1 = (m, s2)" by (cases "read_hexlen s1")
  then have w2: "closed s2 = closed s1" by (metis read_hexlen_closed snd_conv)
  show ?thesis
    using a b w1 w2 by (simp add: check_okay_def split: sum.splits)
qed

lemma encode_ascii: "\<forall>c\<in>set s. of_char c < (128::nat) \<Longrightarrow> encode (str s) = Inr s"
  by (induction s) (simp_all add: str_def encode_cp_def)

lemma check_okay_OKAY:
  "\<not> closed s \<Longrightarrow> incoming s = ''OKAY'' @ rest \<Longrightarrow>
     check_okay s = (Inr (), s\<lparr>incoming := rest\<rparr>)"
  by (simp add: check_okay_def recvexactly_def)

lemma service_written:
  "\<not> closed s \<Longrightarrow> encode cmd = Inr b \<Longrightarrow>
     written (snd (service s cmd)) = written s @ [frame b]"
  by (simp add: service_def send_def)

lemma service_OKAY:
  "\<not> closed s \<Longrightarrow> encode cmd = Inr b \<Longrightarrow> incoming s = ''OKAY'' @ rest \<Longrightarrow>
     service s cmd = (Inr (), s\<lparr>written := written s @ [frame b], incoming := rest\<rparr>)"
  by (simp add: service_def send_def check_okay_OKAY)

lemma frame_exec: "frame ''exec:'' = ''0005exec:''"
  by code_simp

lemma frame_shell: "frame ''shell:'' = ''0006shell:''"
  by code_simp

subsection \<open>Splitting the buffer\<close>

lemma slices_points:
  "j \<le> k \<Longrightarrow>
   slices xs (map f [j ..< Suc k] @ [N]) =
     map (\<lambda>i. drop (f i) (take (if i < k then f (Suc i) else N) xs)) [j ..< Suc k]"
proof (induction "k - j" arbitrary: j)
  case 0
  then have "j = k" by simp
  then show ?case by simp
next
  case (Suc d)
  then have lt: "j < k" and d: "d = k - Suc j" and le: "Suc j \<le> k" by simp_all
  have a: "[j ..< Suc k] = j # [Suc j ..< Suc k]"
    using lt by (simp add: upt_conv_Cons del: upt_Suc)
  have b: "[Suc j ..< Suc k] = Suc j # [Suc (Suc j) ..< Suc k]"
    using lt by (simp add: upt_conv_Cons del: upt_Suc)
  have "slices xs (map f [j ..< Suc k] @ [N]) =
          drop (f j) (take (f (Suc j)) xs) # slices xs (map f [Suc j ..< Suc k] @ [N])"
    by (simp only: a) (simp add: b del: upt_Suc)
  also have "slices xs (map f [Suc j ..< Suc k] @ [N]) =
     map (\<lambda>i. drop (f i) (take (if i < k then f (Suc i) else N) xs)) [Suc j ..< Suc k]"
    using Suc.hyps(1) [OF d le] .
  finally show ?case
    using lt by (simp only: a) (simp del: upt_Suc)
qed

lemma arange_65536:
  "arange 65536 n 65536 = map (\<lambda>i. i * 65536) [1 ..< Suc ((n - 1) div 65536)]"
proof -
  have len: "(n - 65536 + 65536 - 1) div 65536 = (n - 1) div (65536::nat)"
    by (cases "n \<le> 65536") simp_all
  have u: "[1 ..< Suc ((n - 1) div 65536)] = map Suc [0 ..< (n - 1) div 65536]"
    by (simp only: map_Suc_upt One_nat_def)
  show ?thesis
    unfolding arange_def len u by (simp add: comp_def)
qed

lemma chunks_fixed_offsets:
  "array_split buf (arange 65536 (length buf) 65536) =
     map (\<lambda>i. take 65536 (drop (i * 65536) buf)) [0 ..< Suc ((length buf - 1) div 65536)]"
proof -
  define m where "m = (length buf - 1) div 65536"
  have bound: "length buf \<le> Suc m * 65536"
  proof -
    have "(length buf - 1) mod 65536 < (65536::nat)" by simp
    moreover have "length buf - 1 = m * 65536 + (length buf - 1) mod 65536"
      unfolding m_def by simp
    ultimately show ?thesis by simp
  qed
  have pts: "0 # map (\<lambda>i. i * 65536) [1 ..< Suc m] = map (\<lambda>i. i * 65536) [0 ..< Suc m]"
    by (simp add: upt_conv_Cons del: upt_Suc)
  have "array_split buf (arange 65536 (length buf) 65536) =
          slices buf (map (\<lambda>i. i * 65536) [0 ..< Suc m] @ [length buf])"
    unfolding array_split_def arange_65536 m_def [symmetric]
    by (simp only: pts [symmetric] append_Cons)
  also have "\<dots> = map (\<lambda>i. drop (i * 65536)
                 (take (if i < m then Suc i * 65536 else length buf) buf)) [0 ..< Suc m]"
    by (rule slices_points) simp
  also have "\<dots> = map (\<lambda>i. take 65536 (drop (i * 65536) buf)) [0 ..< Suc m]"
  proof (rule map_cong [OF refl])
    fix i assume "i \<in> set [0 ..< Suc m]"
    then have im: "i \<le> m" by auto
    show "drop (i * 65536) (take (if i < m then Suc i * 65536 else length buf) buf) =
          take 65536 (drop (i * 65536) buf)"
    proof (cases "i < m")
      case True
      then show ?thesis by (simp add: drop_take)
    next
      case False
      with im have "i = m" by simp
      with bound show ?thesis by simp
    qed
  qed
  finally show ?thesis unfolding m_def .
qed

lemma concat_windows:
  "concat (map (\<lambda>i. take c (drop (i * c) xs)) [0 ..< n]) = take (n * c) xs"
proof (induction n)
  case 0
  show ?case by simp
next
  case (Suc n)
  have "take (n * c + c) xs = take (n * c) xs @ take c (drop (n * c) xs)"
    by (rule take_add)
  with Suc show ?case by (simp add: add.commute)
qed

lemma send_chunks_ok:
  "\<not> closed s \<Longrightarrow> \<forall>c\<in>set cs. length c \<le> 65536 \<Longrightarrow>
     send_chunks s cs = (Inr (), s\<lparr>written := written s @ map data_packet cs\<rparr>)"
proof (induction cs arbitrary: s)
  case Nil
  show ?case by simp
next
  case (Cons c cs)
  from Cons.prems have c: "\<not> 65536 < length c" and cs: "\<forall>c\<in>set cs. length c \<le> 65536"
    by auto
  have "\<not> closed (s\<lparr>written := written s @ [data_packet c]\<rparr>)"
    using Cons.prems(1) by simp
  from Cons.IH [OF this cs] show ?case
    using c Cons.prems(1) by (simp add: sendall_def send_def)
qed

subsection \<open>A run of \<^verbatim>\<open>push\<close> on a connection that accepts \<^verbatim>\<open>sync:\<close>\<close>

lemma frame_sync: "frame ''sync:'' = ''0005sync:''"
  by code_simp

lemma encode_sync: "encode (str ''sync:'') = Inr ''sync:''"
  by (simp add: encode_ascii)

lemma chunk_lengths:
  "\<forall>c\<in>set (array_split buf (arange 65536 (length buf) 65536)). length c \<le> 65536"
  unfolding chunks_fixed_offsets by simp

lemma chunks_nonempty:
  "buf \<noteq> [] \<Longrightarrow> array_split buf (arange 65536 (length buf) 65536) = spec_chunks buf"
proof -
  assume "buf \<noteq> []"
  then have "0 < length buf" by simp
  then have "Suc ((length buf - 1) div 65536) = (length buf + 65535) div 65536"
    by arith
  then show ?thesis
    unfolding chunks_fixed_offsets spec_chunks_def by simp
qed

lemma chunks_empty: "array_split [] (arange 65536 0 65536) = [[]]"
  using chunks_fixed_offsets [of "[]"] by simp

lemma push_to_loop:
  assumes "\<not> closed s" and "incoming s = ''OKAY'' @ rest"
    and "encode target_path = Inr path"
    and "request = path @ '','' @ fmt_d (case mode_arg of None \<Rightarrow> 33261 | Some m \<Rightarrow> m)"
    and "length request < 4294967296"
  shows "push now s target_path buffer mode_arg mtime_arg =
      (let s3 = s\<lparr>written := written s @ [''0005sync:'', ''SEND'' @ le32 (length request) @ request] @
                      map data_packet (array_split buffer (arange 65536 (length buffer) 65536)),
                    incoming := rest\<rparr>
       in case pack_I (case mtime_arg of None \<Rightarrow> now | Some m \<Rightarrow> m) of
            Inl e \<Rightarrow> (Inl e, s3)
          | Inr mt \<Rightarrow>
              (case recvexactly (s3\<lparr>written := written s3 @ [''DONE'' @ mt]\<rparr>) 8 of
                 (Inl e, s5) \<Rightarrow> (Inl e, s5)
               | (Inr response, s5) \<Rightarrow>
                   if take 4 response \<noteq> ''OKAY'' then
                     (Inl (RuntimeError (Str (str ''push failed''))), close s5)
                   else (Inr (), close s5)))"
proof -
  have pk: "pack_I (int (length request)) = Inr (le32 (length request))"
    using assms(5) by (simp add: pack_I_def)
  define s1 where "s1 = s\<lparr>written := written s @ [''0005sync:''], incoming := rest\<rparr>"
  have sv: "service s (str ''sync:'') = (Inr (), s1)"
    using service_OKAY [OF assms(1) encode_sync assms(2)] by (simp add: frame_sync s1_def)
  define s2 where
    "s2 = s1\<lparr>written := written s1 @ [''SEND'' @ le32 (length request) @ request]\<rparr>"
  have sd: "send s1 (''SEND'' @ le32 (length request) @ request) = (Inr (), s2)"
    using assms(1) by (simp add: send_def s1_def s2_def)
  have "\<not> closed s2" using assms(1) by (simp add: s1_def s2_def)
  from send_chunks_ok [OF this chunk_lengths]
  have lp: "send_chunks s2 (array_split buffer (arange 65536 (length buffer) 65536)) =
     (Inr (), s2\<lparr>written := written s2 @
        map data_packet (array_split buffer (arange 65536 (length buffer) 65536))\<rparr>)" .
  show ?thesis
    apply (simp only: push_def Let_def sv assms(3) prod.case sum.case)
    apply (simp only: assms(4) [symmetric])
    apply (simp only: pk sd lp prod.case sum.case)
    apply (simp add: s1_def s2_def sendall_def send_def assms(1) split: sum.splits)
    done
qed

lemma push_status_written:
  "written (snd (case recvexactly s4 8 of
                   (Inl e, s5) \<Rightarrow> (Inl e, s5)
                 | (Inr response, s5) \<Rightarrow>
                     if take 4 response \<noteq> ''OKAY'' then (Inl x, close s5)
                     else (Inr y, close s5))) = written s4"
  by (simp add: recvexactly_def close_def)

lemma push_written:
  assumes "\<not> closed s" and "incoming s = ''OKAY'' @ rest"
    and "encode target_path = Inr path"
    and "request = path @ '','' @ fmt_d (case mode_arg of None \<Rightarrow> 33261 | Some m \<Rightarrow> m)"
    and "length request < 4294967296"
  shows "written (snd (push now s target_path buffer mode_arg mtime_arg)) =
           written s @ [''0005sync:'', ''SEND'' @ le32 (length request) @ request] @
           map data_packet (array_split buffer (arange 65536 (length buffer) 65536)) @
           (case pack_I (case mtime_arg of None \<Rightarrow> now | Some m \<Rightarrow> m) of
              Inl e \<Rightarrow> [] | Inr mt \<Rightarrow> [''DONE'' @ mt])"
proof (cases "pack_I (case mtime_arg of None \<Rightarrow> now | Some m \<Rightarrow> m)")
  case (Inl e)
  then show ?thesis
    by (simp add: push_to_loop [OF assms])
next
  case (Inr mt)
  show ?thesis
    unfolding push_to_loop [OF assms] Let_def Inr sum.case push_status_written
    by simp
qed

lemma fmt_d_default: "fmt_d 33261 = ''33261''"
  by (simp add: fmt_d_def dec_digits.simps decdigit_def)

lemma le32_0: "le32 0 = [CHR 0x00, CHR 0x00, CHR 0x00, CHR 0x00]"
  by (simp add: le32_def char_of_eq_iff)

lemma le32_8: "le32 8 = [CHR 0x08, CHR 0x00, CHR 0x00, CHR 0x00]"
  by (simp add: le32_def char_of_eq_iff)

lemma le32_3: "le32 3 = [CHR 0x03, CHR 0x00, CHR 0x00, CHR 0x00]"
  by (simp add: le32_def char_of_eq_iff)

lemma le32_big: "le32 18928 = [CHR 0xF0, CHR 0x49, CHR 0x00, CHR 0x00]"
  by (simp add: le32_def char_of_eq_iff)

lemma enc_f: "encode (str ''/f'') = Inr ''/f''"
  by (simp add: encode_ascii)

subsection \<open>The chunks of the specification\<close>

lemma ceil_div_facts:
  fixes N c :: nat
  assumes c: "0 < c"
  shows "N \<le> (N + (c - 1)) div c * c"
    and "0 < N \<Longrightarrow> 0 < (N + (c - 1)) div c \<and> ((N + (c - 1)) div c - 1) * c < N"
    and "Suc i < (N + (c - 1)) div c \<Longrightarrow> Suc i * c < N"
proof -
  define n where "n = (N + (c - 1)) div c"
  have eq: "n * c + (N + (c - 1)) mod c = N + (c - 1)"
    unfolding n_def by simp
  have md: "(N + (c - 1)) mod c < c"
    using c by simp
  from eq md c show le: "N \<le> (N + (c - 1)) div c * c"
    unfolding n_def [symmetric] by linarith
  {
    assume "0 < N"
    with le c have n0: "0 < n" unfolding n_def [symmetric] by (cases n) auto
    then have "(n - 1) * c + c = n * c"
      by (cases n) simp_all
    with eq md c \<open>0 < N\<close> have "(n - 1) * c < N" by linarith
    with n0 show "0 < (N + (c - 1)) div c \<and> ((N + (c - 1)) div c - 1) * c < N"
      unfolding n_def by simp
  }
  {
    assume "Suc i < (N + (c - 1)) div c"
    then have "Suc (Suc i) \<le> n" unfolding n_def by simp
    then have "Suc (Suc i) * c \<le> n * c" by (rule mult_le_mono1)
    then have "Suc i * c + c \<le> n * c" by simp
    with eq md c show "Suc i * c < N" by linarith
  }
qed


lemma spec_chunks_length:
  "length (spec_chunks buf) = (length buf + 65535) div 65536"
  by (simp add: spec_chunks_def)

lemma spec_chunks_nth:
  "i < length (spec_chunks buf) \<Longrightarrow> spec_chunks buf ! i = take 65536 (drop (i * 65536) buf)"
  by (simp add: spec_chunks_def)

lemma spec_chunks_concat: "concat (spec_chunks buf) = buf"
proof -
  have "length buf \<le> (length buf + 65535) div 65536 * 65536"
    using ceil_div_facts(1) [of 65536 "length buf"] by simp
  then show ?thesis
    by (simp add: spec_chunks_def concat_windows)
qed

lemma spec_chunks_full:
  assumes "Suc i < length (spec_chunks buf)"
  shows "length (spec_chunks buf ! i) = 65536"
proof -
  from assms have "Suc i < (length buf + 65535) div 65536"
    by (simp add: spec_chunks_length)
  then have "Suc i * 65536 < length buf"
    using ceil_div_facts(3) [of 65536 i "length buf"] by simp
  then have "65536 \<le> length buf - i * 65536" by simp
  with assms show ?thesis
    by (simp add: spec_chunks_nth)
qed

lemma spec_chunks_last:
  assumes "buf \<noteq> []"
  shows "0 < length (last (spec_chunks buf)) \<and> length (last (spec_chunks buf)) \<le> 65536"
proof -
  define n where "n = (length buf + 65535) div 65536"
  from assms have "0 < length buf" by simp
  then have n: "0 < n" and lt: "(n - 1) * 65536 < length buf"
    using ceil_div_facts(2) [of 65536 "length buf"] unfolding n_def by simp_all
  have len: "length (spec_chunks buf) = n"
    by (simp add: spec_chunks_length n_def)
  with n have ne: "spec_chunks buf \<noteq> []" by auto
  have "last (spec_chunks buf) = spec_chunks buf ! (n - 1)"
    using ne len by (simp add: last_conv_nth)
  also have "\<dots> = take 65536 (drop ((n - 1) * 65536) buf)"
    using n len by (simp add: spec_chunks_nth)
  finally show ?thesis using lt by simp
qed

lemma upt_0_3: "[0 ..< (3::nat)] = [0, 1, 2]"
  by code_simp

lemma spec_chunks_150000:
  assumes "length buf = 150000"
  shows "map length (spec_chunks buf) = [65536, 65536, 18928]"
  using assms by (simp add: spec_chunks_def upt_0_3)

subsection \<open>What \<^verbatim>\<open>push\<close> writes, whatever happens\<close>

lemma send_eqD:
  "send s d = (r, s1) \<Longrightarrow>
     closed s1 = closed s \<and> written s1 = (if closed s then written s else written s @ [d])"
  by (auto simp: send_def split: if_splits)

lemma recvexactly_eqD:
  "recvexactly s n = (r, s1) \<Longrightarrow> closed s1 = closed s \<and> written s1 = written s"
  by (metis recvexactly_closed recvexactly_written snd_conv)

lemma check_okay_eqD:
  "check_okay s = (r, s1) \<Longrightarrow> closed s1 = closed s \<and> written s1 = written s"
  by (metis check_okay_closed check_okay_written snd_conv)

lemma service_sync_eqD:
  "service s (str ''sync:'') = (r, s1) \<Longrightarrow>
     closed s1 = closed s \<and>
     written s1 = (if closed s then written s else written s @ [''0005sync:''])"
  by (auto simp: service_def encode_sync frame_sync split: prod.splits sum.splits
           dest!: send_eqD check_okay_eqD)

lemma send_chunks_eqD:
  "send_chunks s cs = (r, s1) \<Longrightarrow> \<forall>c\<in>set cs. length c \<le> 65536 \<Longrightarrow>
     closed s1 = closed s \<and>
     (\<exists>k. written s1 = written s @ map data_packet (take k cs))"
proof (induction cs arbitrary: s)
  case Nil
  then show ?case by simp
next
  case (Cons c cs)
  from Cons.prems(2) have c: "\<not> 65536 < length c" and cs: "\<forall>c\<in>set cs. length c \<le> 65536"
    by auto
  show ?case
  proof (cases "closed s")
    case True
    with Cons.prems(1) c have "s1 = s"
      by (simp add: sendall_def send_def)
    then have "written s1 = written s @ map data_packet (take 0 (c # cs))" by simp
    with \<open>s1 = s\<close> show ?thesis by blast
  next
    case False
    with Cons.prems(1) c
    have "send_chunks (s\<lparr>written := written s @ [data_packet c]\<rparr>) cs = (r, s1)"
      by (simp add: sendall_def send_def)
    from Cons.IH [OF this cs] obtain k where
      "closed s1 = closed s" and
      "written s1 = written s @ map data_packet (take (Suc k) (c # cs))"
      by auto
    then show ?thesis by blast
  qed
qed


lemma extends_refl: "extends s s"
  by (simp add: extends_def data_bounded_def)

lemma extends_trans: "extends s s1 \<Longrightarrow> extends s1 s2 \<Longrightarrow> extends s s2"
  by (fastforce simp: extends_def data_bounded_def)

lemma step_ext:
  assumes "\<And>r s1. m = (r, s1) \<Longrightarrow> extends s s1"
    and "\<And>x s1. m = (Inr x, s1) \<Longrightarrow> extends s1 (snd (k x s1))"
  shows "extends s (snd (case m of (Inl e, s1) \<Rightarrow> (Inl e, s1) | (Inr x, s1) \<Rightarrow> k x s1))"
proof -
  obtain r s1 where m: "m = (r, s1)" by (cases m)
  show ?thesis
  proof (cases r)
    case (Inl e)
    with m assms(1) show ?thesis by simp
  next
    case (Inr x)
    with m assms(1) [OF m] assms(2) [of x s1] show ?thesis
      by (simp add: extends_trans)
  qed
qed

lemma pure_ext:
  assumes "\<And>x. v = Inr x \<Longrightarrow> extends s1 (snd (k x))"
  shows "extends s1 (snd (case v of Inl e \<Rightarrow> (Inl e, s1) | Inr x \<Rightarrow> k x))"
  using assms by (cases v) (simp_all add: extends_refl)

lemma service_sync_ext: "service s (str ''sync:'') = (r, s1) \<Longrightarrow> extends s s1"
  by (drule service_sync_eqD) (simp add: extends_def data_bounded_def)

lemma send_tagged_ext:
  "send s (tag @ d) = (r, s1) \<Longrightarrow> length tag = 4 \<Longrightarrow> tag \<noteq> ''DATA'' \<Longrightarrow> extends s s1"
  by (drule send_eqD) (simp add: extends_def data_bounded_def)

lemma data_packets_bounded:
  assumes "\<forall>c\<in>set cs. length c \<le> 65536"
  shows "data_bounded (map data_packet (take k cs))"
  unfolding data_bounded_def
proof (intro ballI impI)
  fix p assume "p \<in> set (map data_packet (take k cs))"
  then obtain c where c: "c \<in> set (take k cs)" and p: "p = data_packet c" by auto
  from c have "c \<in> set cs" by (rule in_set_takeD)
  with assms have "length c \<le> 65536" by simp
  with p show "\<exists>c. p = ''DATA'' @ le32 (length c) @ c \<and> length c \<le> 65536"
    unfolding data_packet_def by blast
qed

lemma send_chunks_ext:
  assumes "send_chunks s cs = (r, s1)" and "\<forall>c\<in>set cs. length c \<le> 65536"
  shows "extends s s1"
proof -
  from send_chunks_eqD [OF assms] obtain k where
    "written s1 = written s @ map data_packet (take k cs)" by blast
  with data_packets_bounded [OF assms(2), of k] show ?thesis
    unfolding extends_def by blast
qed

lemma recvexactly_ext: "recvexactly s n = (r, s1) \<Longrightarrow> extends s s1"
  by (drule recvexactly_eqD) (simp add: extends_def data_bounded_def)

lemma push_extends: "extends s (snd (push now s target_path buffer mode_arg mtime_arg))"
  unfolding push_def Let_def
  apply (rule step_ext)
   apply (erule service_sync_ext)
  apply (rule pure_ext)
  apply (rule pure_ext)
  apply (rule step_ext)
   apply (erule send_tagged_ext; simp)
  apply (rule step_ext)
   apply (erule send_chunks_ext [OF _ chunk_lengths])
  apply (rule pure_ext)
  apply (rule step_ext)
   apply (unfold sendall_def, erule send_tagged_ext; simp)
  apply (rule step_ext)
   apply (erule recvexactly_ext)
  apply (simp add: extends_def close_def data_bounded_def)
  done


lemma push_small_written:
  "written (snd (push 0 \<lparr>written = [''old''], incoming = ''OKAY'', closed = False\<rparr>
         (str ''/f'') ''abc'' None (Some 0))) =
     [''old'', ''0005sync:'',
      ''SEND'' @ [CHR 0x08, CHR 0x00, CHR 0x00, CHR 0x00] @ ''/f,33261'',
      ''DATA'' @ [CHR 0x03, CHR 0x00, CHR 0x00, CHR 0x00] @ ''abc'',
      ''DONE'' @ [CHR 0x00, CHR 0x00, CHR 0x00, CHR 0x00]]"
proof -
  have e: "encode (str ''/f'') = Inr ''/f''"
    by (simp add: encode_ascii)
  have l8: "le32 (length ''/f,33261'') = [CHR 0x08, CHR 0x00, CHR 0x00, CHR 0x00]"
    using le32_8 by (simp add: eval_nat_numeral)
  have l3: "le32 (length ''abc'') = [CHR 0x03, CHR 0x00, CHR 0x00, CHR 0x00]"
    using le32_3 by (simp add: eval_nat_numeral)
  have ch: "array_split ''abc'' (arange 65536 (length ''abc'') 65536) = [''abc'']"
    unfolding chunks_fixed_offsets by simp
  show ?thesis
    using l8 l3 ch push_written [of "\<lparr>written = [''old''], incoming = ''OKAY'', closed = False\<rparr>"
       "[]" "str ''/f''" "''/f''" "''/f,33261''" None 0 "''abc''" "Some 0"]
    by (simp add: e fmt_d_default le32_0 data_packet_def pack_I_def)
qed


subsection \<open>The length prefix\<close>

lemma hexdigit_table:
  "\<forall>d\<in>set [0 ..< 16].
      digit_value (hexdigit d) = d \<and> \<not> isspace (hexdigit d) \<and>
      hexdigit d \<notin> set ''+-_xX''"
  by code_simp

lemma hexdigit_facts:
  assumes "d < 16"
  shows "digit_value (hexdigit d) = d" and "\<not> isspace (hexdigit d)"
    and "hexdigit d \<noteq> CHR ''+''" and "hexdigit d \<noteq> CHR ''-''" and "hexdigit d \<noteq> CHR ''_''"
    and "hexdigit d \<noteq> CHR ''x''" and "hexdigit d \<noteq> CHR ''X''"
proof -
  from assms have "d \<in> set [0 ..< 16]" by simp
  with hexdigit_table have
    "digit_value (hexdigit d) = d \<and> \<not> isspace (hexdigit d) \<and> hexdigit d \<notin> set ''+-_xX''"
    by blast
  then show "digit_value (hexdigit d) = d" and "\<not> isspace (hexdigit d)"
    and "hexdigit d \<noteq> CHR ''+''" and "hexdigit d \<noteq> CHR ''-''" and "hexdigit d \<noteq> CHR ''_''"
    and "hexdigit d \<noteq> CHR ''x''" and "hexdigit d \<noteq> CHR ''X''"
    by auto
qed

lemma fmt_04X_small:
  assumes "n < 65536"
  shows "fmt_04X n = [hexdigit (n div 4096), hexdigit (n div 256 mod 16),
                      hexdigit (n div 16 mod 16), hexdigit (n mod 16)]"
proof -
  have z: "hexdigit 0 = CHR ''0''" by (simp add: hexdigit_def)
  have rep: "replicate 3 (CHR ''0'') = ''000''" "replicate 2 (CHR ''0'') = ''00''"
    by (simp_all add: numeral_3_eq_3 numeral_2_eq_2)
  consider "n < 16" | "16 \<le> n" "n < 256" | "256 \<le> n" "n < 4096" | "4096 \<le> n"
    by linarith
  then show ?thesis
  proof cases
    case 1
    then have "hex_digits n = [hexdigit n]" by (simp add: hex_digits.simps)
    with 1 show ?thesis
      by (simp add: fmt_04X_def z rep)
  next
    case 2
    then have a: "n div 16 < 16" by simp
    from 2 have "hex_digits n = [hexdigit (n div 16), hexdigit (n mod 16)]"
      using a by (simp add: hex_digits.simps [of n] hex_digits.simps [of "n div 16"])
    moreover from 2 have "n div 4096 = 0" "n div 256 = 0" "n div 16 mod 16 = n div 16"
      using a by simp_all
    ultimately show ?thesis
      by (simp add: fmt_04X_def z rep)
  next
    case 3
    then have a: "\<not> n div 16 < 16" and b: "n div 16 div 16 < 16"
      by (simp_all add: div_mult2_eq [symmetric])
    from 3 have "hex_digits n =
        [hexdigit (n div 16 div 16), hexdigit (n div 16 mod 16), hexdigit (n mod 16)]"
      using a b by (simp add: hex_digits.simps [of n] hex_digits.simps [of "n div 16"]
          hex_digits.simps [of "n div 16 div 16"])
    moreover from 3 have "n div 4096 = 0" "n div 256 mod 16 = n div 16 div 16"
      using b by (simp_all add: div_mult2_eq [symmetric])
    ultimately show ?thesis
      by (simp add: fmt_04X_def z rep)
  next
    case 4
    with assms have a: "\<not> n div 16 < 16" and b: "\<not> n div 16 div 16 < 16"
      and c: "n div 16 div 16 div 16 < 16"
      by (simp_all add: div_mult2_eq [symmetric])
    from 4 have "hex_digits n =
        [hexdigit (n div 16 div 16 div 16), hexdigit (n div 16 div 16 mod 16),
         hexdigit (n div 16 mod 16), hexdigit (n mod 16)]"
      using a b c by (simp add: hex_digits.simps [of n] hex_digits.simps [of "n div 16"]
          hex_digits.simps [of "n div 16 div 16"] hex_digits.simps [of "n div 16 div 16 div 16"])
    moreover have "n div 4096 = n div 16 div 16 div 16" "n div 256 = n div 16 div 16"
      by (simp_all add: div_mult2_eq [symmetric])
    ultimately show ?thesis
      by (simp add: fmt_04X_def)
  qed
qed


lemma int16_four_digits:
  assumes "a < 16" and "b < 16" and "c < 16" and "d < 16"
  shows "int16 [hexdigit a, hexdigit b, hexdigit c, hexdigit d] =
           Inr (int (((a * 16 + b) * 16 + c) * 16 + d))"
  using hexdigit_facts [OF assms(1)] hexdigit_facts [OF assms(2)]
    hexdigit_facts [OF assms(3)] hexdigit_facts [OF assms(4)] assms
  by (simp add: int16_def strip_sign_def strip_0x_def)

lemma fmt_04X_length: "n < 65536 \<Longrightarrow> length (fmt_04X n) = 4"
  by (simp add: fmt_04X_small)

lemma int16_fmt_04X:
  assumes "n < 65536"
  shows "int16 (fmt_04X n) = Inr (int n)"
proof -
  have d: "n div 4096 < 16" using assms by simp
  have "((n div 4096 * 16 + n div 256 mod 16) * 16 + n div 16 mod 16) * 16 + n mod 16 = n"
  proof -
    have 1: "n div 16 * 16 + n mod 16 = n" by simp
    have 2: "n div 256 * 16 + n div 16 mod 16 = n div 16"
      using div_mult_mod_eq [of "n div 16" 16] by (simp add: div_mult2_eq [symmetric])
    have 3: "n div 4096 * 16 + n div 256 mod 16 = n div 256"
      using div_mult_mod_eq [of "n div 256" 16] by (simp add: div_mult2_eq [symmetric])
    show ?thesis by (simp only: 3 2 1)
  qed
  with int16_four_digits [OF d, of "n div 256 mod 16" "n div 16 mod 16" "n mod 16"]
  show ?thesis
    by (simp add: fmt_04X_small [OF assms])
qed

lemma int16_0000: "int16 ''0000'' = Inr 0"
  using int16_fmt_04X [of 0] fmt_04X_small [of 0] by (simp add: hexdigit_def)

lemma recvexactly_prefix:
  "\<not> closed s \<Longrightarrow> incoming s = pre @ rest \<Longrightarrow> int (length pre) = n \<Longrightarrow>
     recvexactly s n = (Inr pre, s\<lparr>incoming := rest\<rparr>)"
  by (auto simp: recvexactly_def)

lemma read_hexlen_zero:
  assumes "\<not> closed s" and "incoming s = lenfield @ rest" and "length lenfield = 4"
    and "int16 lenfield = Inr 0"
  shows "read_hexlen s = (Inr [], s\<lparr>incoming := rest\<rparr>)"
  using recvexactly_prefix [OF assms(1,2), of 4] assms(3,4)
  by (simp add: read_hexlen_def)

lemma read_hexlen_payload:
  assumes "\<not> closed s" and "incoming s = lenfield @ rest" and "length lenfield = 4"
    and "int16 lenfield = Inr L" and "0 < L" and "nat L \<le> length rest"
  shows "read_hexlen s = (Inr (take (nat L) rest), s\<lparr>incoming := drop (nat L) rest\<rparr>)"
proof -
  have "recvexactly (s\<lparr>incoming := rest\<rparr>) L =
          (Inr (take (nat L) rest), s\<lparr>incoming := drop (nat L) rest\<rparr>)"
    using assms(1,5,6) by (simp add: recvexactly_def)
  with recvexactly_prefix [OF assms(1,2), of 4] assms(3,4,5) show ?thesis
    by (simp add: read_hexlen_def)
qed

lemma check_okay_not_okay:
  assumes "\<not> closed s" and "incoming s = status @ tail" and "length status = 4"
    and "status \<noteq> ''OKAY''"
  shows "check_okay s =
     (case read_hexlen (s\<lparr>incoming := tail\<rparr>) of
        (Inl e, s2) \<Rightarrow> (Inl e, s2)
      | (Inr msg, s2) \<Rightarrow> (Inl (RuntimeError (Bytes msg)), s2))"
  using recvexactly_prefix [OF assms(1,2), of 4] assms(3,4)
  by (simp add: check_okay_def)

lemma service_not_okay:
  assumes "\<not> closed s" and "encode cmd = Inr cmdbytes"
    and "incoming s = status @ tail" and "length status = 4" and "status \<noteq> ''OKAY''"
  shows "service s cmd =
     (case read_hexlen (s\<lparr>written := written s @ [frame cmdbytes], incoming := tail\<rparr>) of
        (Inl e, s2) \<Rightarrow> (Inl e, s2)
      | (Inr msg, s2) \<Rightarrow> (Inl (RuntimeError (Bytes msg)), s2))"
proof -
  let ?s1 = "s\<lparr>written := written s @ [frame cmdbytes]\<rparr>"
  have "check_okay ?s1 =
     (case read_hexlen (?s1\<lparr>incoming := tail\<rparr>) of
        (Inl e, s2) \<Rightarrow> (Inl e, s2)
      | (Inr msg, s2) \<Rightarrow> (Inl (RuntimeError (Bytes msg)), s2))"
    by (rule check_okay_not_okay [OF _ _ assms(4,5)]) (simp_all add: assms)
  then show ?thesis
    using assms(1,2) by (simp add: service_def send_def)
qed


subsection \<open>Text of a response\<close>

lemma utf8_scan_ascii: "\<forall>b\<in>set bs. b < 128 \<Longrightarrow> utf8_scan bs = map Some bs"
  by (induction bs) simp_all

lemma those_map_Some: "those (map Some xs) = Some xs"
  by (induction xs) simp_all

lemma map_filter_map_Some: "List.map_filter (\<lambda>x. x) (map Some xs) = xs"
  by (induction xs) (simp_all add: List.map_filter_simps)

lemma utf8_scan_ascii_bytes:
  "\<forall>c\<in>set b. of_char c < (128::nat) \<Longrightarrow> utf8_scan (map of_char b) = map Some (str b)"
  unfolding str_def by (rule utf8_scan_ascii) simp

lemma decode_ascii: "\<forall>c\<in>set b. of_char c < (128::nat) \<Longrightarrow> decode b = Inr (str b)"
  unfolding decode_def by (simp only: utf8_scan_ascii_bytes those_map_Some option.case)

lemma decode_ignore_ascii:
  "\<forall>c\<in>set b. of_char c < (128::nat) \<Longrightarrow> decode_ignore b = str b"
  unfolding decode_ignore_def by (simp only: utf8_scan_ascii_bytes map_filter_map_Some)

lemma encode_append:
  "encode (a @ b) =
     (case encode a of
        Inl e \<Rightarrow> Inl e
      | Inr x \<Rightarrow> (case encode b of Inl e \<Rightarrow> Inl e | Inr y \<Rightarrow> Inr (x @ y)))"
  by (induction a) (simp_all split: sum.splits)

lemma read_hexlen_framed:
  assumes "\<not> closed s" and "incoming s = lenfield @ payload @ rest" and "length lenfield = 4"
    and "int16 lenfield = Inr (int (length payload))"
  shows "read_hexlen s = (Inr payload, s\<lparr>incoming := rest\<rparr>)"
proof (cases "payload = []")
  case True
  with read_hexlen_zero [OF assms(1,2,3)] assms(4) show ?thesis by simp
next
  case False
  then have "0 < int (length payload)" by simp
  from read_hexlen_payload [OF assms this] show ?thesis by simp
qed

lemma contains_iff: "contains xs sub \<longleftrightarrow> (\<exists>pre post. xs = pre @ sub @ post)"
proof (induction xs)
  case Nil
  show ?case by auto
next
  case (Cons x xs)
  have "take (length sub) (x # xs) = sub \<longleftrightarrow> (\<exists>post. x # xs = sub @ post)"
  proof
    assume "take (length sub) (x # xs) = sub"
    then have "x # xs = sub @ drop (length sub) (x # xs)"
      by (metis append_take_drop_id)
    then show "\<exists>post. x # xs = sub @ post" ..
  next
    assume "\<exists>post. x # xs = sub @ post"
    then show "take (length sub) (x # xs) = sub" by auto
  qed
  moreover have "(\<exists>pre post. x # xs = pre @ sub @ post) \<longleftrightarrow>
      (\<exists>post. x # xs = sub @ post) \<or> (\<exists>pre post. xs = pre @ sub @ post)"
  proof
    assume "\<exists>pre post. x # xs = pre @ sub @ post"
    then obtain pre post where e: "x # xs = pre @ sub @ post" by blast
    show "(\<exists>post. x # xs = sub @ post) \<or> (\<exists>pre post. xs = pre @ sub @ post)"
    proof (cases pre)
      case Nil
      with e show ?thesis by auto
    next
      case (Cons p ps)
      with e have "xs = ps @ sub @ post" by simp
      then show ?thesis by blast
    qed
  next
    assume "(\<exists>post. x # xs = sub @ post) \<or> (\<exists>pre post. xs = pre @ sub @ post)"
    then show "\<exists>pre post. x # xs = pre @ sub @ post"
    proof
      assume "\<exists>post. x # xs = sub @ post"
      then obtain post where "x # xs = [] @ sub @ post" by auto
      then show ?thesis by blast
    next
      assume "\<exists>pre post. xs = pre @ sub @ post"
      then obtain pre post where "x # xs = (x # pre) @ sub @ post" by auto
      then show ?thesis by blast
    qed
  qed
  ultimately show ?case using Cons.IH by simp
qed

lemma split_sep_plain: "sep \<notin> set a \<Longrightarrow> split_sep sep a = [a]"
  by (induction a) auto

lemma split_sep_field:
  "sep \<notin> set a \<Longrightarrow> split_sep sep (a @ sep # b) = a # split_sep sep b"
  by (induction a) auto

lemma splitlines_line:
  assumes "\<forall>x\<in>set line. \<not> is_linebreak x"
  shows "splitlines (line @ 0x0A # rest) = line # splitlines rest"
proof -
  have lb: "is_linebreak 0x0A" by (simp add: is_linebreak_def)
  obtain c cs where e: "line @ 0x0A # rest = c # cs"
    by (cases line) auto
  have t: "takeWhile (\<lambda>x. \<not> is_linebreak x) (line @ 0x0A # rest) = line"
    using assms lb by (simp add: takeWhile_tail)
  have d: "dropWhile (\<lambda>x. \<not> is_linebreak x) (line @ 0x0A # rest) = 0x0A # rest"
    using assms lb by (simp add: dropWhile_append3)
  have "skip_break (0x0A # rest) = rest"
    by (simp add: skip_break_def split: list.splits)
  with t d show ?thesis
    using splitlines.simps(2) [of c cs] unfolding e [symmetric] by simp
qed

lemma devices_of_lines:
  assumes "\<forall>d\<in>set ds. plain (fst d) \<and> plain (snd d)"
  shows "map (split_sep 0x09) (splitlines (device_lines ds)) = map (\<lambda>d. [fst d, snd d]) ds"
  using assms
proof (induction ds)
  case Nil
  show ?case by (simp add: device_lines_def)
next
  case (Cons d ds)
  obtain serial state where d: "d = (serial, state)" by (cases d)
  from Cons.prems d have ps: "plain serial" and pt: "plain state" by simp_all
  have nl: "\<forall>x\<in>set (serial @ 0x09 # state). \<not> is_linebreak x"
    using ps pt by (auto simp: plain_def is_linebreak_def)
  have "device_lines (d # ds) = (serial @ 0x09 # state) @ 0x0A # device_lines ds"
    by (simp add: device_lines_def d)
  then have "splitlines (device_lines (d # ds)) =
               (serial @ 0x09 # state) # splitlines (device_lines ds)"
    using splitlines_line [OF nl] by simp
  moreover have "split_sep 0x09 (serial @ 0x09 # state) = [serial, state]"
  proof -
    from ps pt have "0x09 \<notin> set serial" and "0x09 \<notin> set state"
      unfolding plain_def by blast+
    then show ?thesis
      by (simp add: split_sep_field split_sep_plain)
  qed
  ultimately show ?case
    using Cons d by simp
qed

lemma request_response:
  assumes "\<not> closed s" and "encode cmd = Inr cmdbytes"
    and "incoming s = ''OKAY'' @ lenfield @ payload @ rest" and "length lenfield = 4"
    and "int16 lenfield = Inr (int (length payload))"
  shows "service s cmd =
           (Inr (), s\<lparr>written := written s @ [frame cmdbytes],
                      incoming := lenfield @ payload @ rest\<rparr>)"
    and "read_response (s\<lparr>written := written s @ [frame cmdbytes],
                           incoming := lenfield @ payload @ rest\<rparr>) =
           (Inr payload, s\<lparr>written := written s @ [frame cmdbytes], incoming := rest\<rparr>)"
proof -
  show "service s cmd =
           (Inr (), s\<lparr>written := written s @ [frame cmdbytes],
                      incoming := lenfield @ payload @ rest\<rparr>)"
    by (rule service_OKAY [OF assms(1,2,3)])
  let ?s1 = "s\<lparr>written := written s @ [frame cmdbytes], incoming := lenfield @ payload @ rest\<rparr>"
  have "\<not> closed ?s1" and "incoming ?s1 = lenfield @ payload @ rest"
    using assms(1) by simp_all
  from read_hexlen_framed [OF this assms(4,5)]
  show "read_response ?s1 =
           (Inr payload, s\<lparr>written := written s @ [frame cmdbytes], incoming := rest\<rparr>)"
    by (simp add: read_response_def)
qed

lemma frame_devices: "frame ''host:devices'' = ''000Chost:devices''"
  by code_simp

lemma encode_devices: "encode (str ''host:devices'') = Inr ''host:devices''"
  by (simp add: encode_ascii)

lemma devices_run:
  assumes "\<not> closed s" and "incoming s = ''OKAY'' @ lenfield @ payload @ rest"
    and "length lenfield = 4" and "int16 lenfield = Inr (int (length payload))"
  shows "devices s =
     (case decode payload of
        Inl e \<Rightarrow> (Inl e, s\<lparr>written := written s @ [''000Chost:devices''], incoming := rest\<rparr>)
      | Inr resp \<Rightarrow>
          (Inr (map (split_sep 0x09) (splitlines resp)),
           s\<lparr>written := written s @ [''000Chost:devices''], incoming := rest\<rparr>))"
proof -
  note rr = request_response [OF assms(1) encode_devices assms(2-4), unfolded frame_devices]
  show ?thesis
    by (simp only: devices_def rr prod.case sum.case)
qed

lemma example_devices:
  "str (''emulator-5554'' @ [CHR 0x09] @ ''device'' @ [CHR 0x0A] @
        ''0123ABC'' @ [CHR 0x09] @ ''unauthorized'' @ [CHR 0x0A]) =
   device_lines [(str ''emulator-5554'', str ''device''), (str ''0123ABC'', str ''unauthorized'')]"
  by (simp add: str_def device_lines_def)

lemma example_plain:
  "plain (str ''emulator-5554'')" "plain (str ''device'')"
  "plain (str ''0123ABC'')" "plain (str ''unauthorized'')"
  by (simp_all add: plain_def str_def is_linebreak_def)


lemma encode_connect:
  "encode device = Inr dev \<Longrightarrow>
     encode (str ''host:connect:'' @ device) = Inr (''host:connect:'' @ dev)"
  by (simp add: encode_append encode_ascii)

lemma encode_disconnect:
  "encode device = Inr dev \<Longrightarrow>
     encode (str ''host:disconnect:'' @ device) = Inr (''host:disconnect:'' @ dev)"
  by (simp add: encode_append encode_ascii)


subsection \<open>The claims\<close>

text \<open>
  C9: the blocking calls \<^verbatim>\<open>exec("")\<close> and \<^verbatim>\<open>shell("")\<close> both fail with
  \<^verbatim>\<open>ValueError\<close> (the specification's \<^verbatim>\<open>InvalidArgument\<close>), and the connection is
  what it was: nothing has been written to it or read from it, and it has not been closed.
  This holds for every state of the connection, also a closed one.
\<close>

theorem exec_shell_empty_command:
  "exec s (str '''') =
     (Inl (ValueError (Str (str ''no command specified for blocking exec''))), s)
   \<and> shell s (str '''') =
     (Inl (ValueError (Str (str ''no command specified for blocking shell''))), s)"
  by (simp add: exec_def shell_def str_def)

text \<open>
  C10: the streaming calls \<^verbatim>\<open>exec_stream\<close> and \<^verbatim>\<open>shell_stream\<close> accept a command that
  is left out or empty. On an open connection they write the service request
  \<^verbatim>\<open>0005exec:\<close> or \<^verbatim>\<open>0006shell:\<close> whatever the peer answers (there is no local
  validation), and when the peer answers \<^verbatim>\<open>OKAY\<close> they return the session's socket,
  with the rest of the peer's bytes still to be read.
\<close>

theorem stream_calls_accept_empty_command:
  assumes "\<not> closed s" and "a = None \<or> a = Some (str '''')"
  shows "written (snd (exec_stream s a)) = written s @ [''0005exec:'']
       \<and> written (snd (shell_stream s a)) = written s @ [''0006shell:'']
       \<and> (\<forall>rest. incoming s = ''OKAY'' @ rest \<longrightarrow>
             exec_stream s a =
               (Inr (s\<lparr>written := written s @ [''0005exec:''], incoming := rest\<rparr>),
                s\<lparr>written := written s @ [''0005exec:''], incoming := rest\<rparr>)
           \<and> shell_stream s a =
               (Inr (s\<lparr>written := written s @ [''0006shell:''], incoming := rest\<rparr>),
                s\<lparr>written := written s @ [''0006shell:''], incoming := rest\<rparr>))"
proof -
  have cmd: "(case a of None \<Rightarrow> str '''' | Some c \<Rightarrow> c) = []"
    using assms(2) by (auto simp: str_def)
  have e: "encode (str ''exec:'') = Inr ''exec:''"
    and sh: "encode (str ''shell:'') = Inr ''shell:''"
    by (simp_all add: encode_ascii)
  have w1: "written (snd (exec_stream s a)) = written s @ [''0005exec:'']"
  proof -
    obtain r s1 where sv: "service s (str ''exec:'') = (r, s1)"
      by (cases "service s (str ''exec:'')")
    with service_written [OF assms(1) e] have "written s1 = written s @ [''0005exec:'']"
      by (simp add: frame_exec)
    with sv show ?thesis
      by (simp add: exec_stream_def cmd split: sum.splits)
  qed
  have w2: "written (snd (shell_stream s a)) = written s @ [''0006shell:'']"
  proof -
    obtain r s1 where sv: "service s (str ''shell:'') = (r, s1)"
      by (cases "service s (str ''shell:'')")
    with service_written [OF assms(1) sh] have "written s1 = written s @ [''0006shell:'']"
      by (simp add: frame_shell)
    with sv show ?thesis
      by (simp add: shell_stream_def cmd split: sum.splits)
  qed
  have r: "exec_stream s a =
               (Inr (s\<lparr>written := written s @ [''0005exec:''], incoming := rest\<rparr>),
                s\<lparr>written := written s @ [''0005exec:''], incoming := rest\<rparr>)
           \<and> shell_stream s a =
               (Inr (s\<lparr>written := written s @ [''0006shell:''], incoming := rest\<rparr>),
                s\<lparr>written := written s @ [''0006shell:''], incoming := rest\<rparr>)"
    if "incoming s = ''OKAY'' @ rest" for rest
    using service_OKAY [OF assms(1) e that] service_OKAY [OF assms(1) sh that]
    by (simp add: exec_stream_def shell_stream_def cmd frame_exec frame_shell)
  from w1 w2 r show ?thesis by blast
qed

theorem stream_calls_accept_empty_command_witness:
  "\<not> closed \<lparr>written = [], incoming = ''OKAYdata'', closed = False\<rparr>
   \<and> exec_stream \<lparr>written = [], incoming = ''OKAYdata'', closed = False\<rparr> None =
       (Inr \<lparr>written = [''0005exec:''], incoming = ''data'', closed = False\<rparr>,
        \<lparr>written = [''0005exec:''], incoming = ''data'', closed = False\<rparr>)
   \<and> shell_stream \<lparr>written = [], incoming = ''OKAYdata'', closed = False\<rparr> None =
       (Inr \<lparr>written = [''0006shell:''], incoming = ''data'', closed = False\<rparr>,
        \<lparr>written = [''0006shell:''], incoming = ''data'', closed = False\<rparr>)"
  using stream_calls_accept_empty_command
    [of "\<lparr>written = [], incoming = ''OKAYdata'', closed = False\<rparr>" None]
  by simp

text \<open>
  C1: for every non-empty buffer, on a connection that accepts \<^verbatim>\<open>sync:\<close>, \<^verbatim>\<open>push\<close>
  writes after the \<^verbatim>\<open>SEND\<close> header one \<^verbatim>\<open>DATA\<close> sub-packet for each chunk of the
  specification, in order: the chunks at the fixed offsets 0, 65536, 131072 and so on.
  Their concatenation is the buffer, every chunk but the last has 65536 bytes, the last
  has between 1 and 65536 bytes, and a buffer of 150000 bytes gives chunks of 65536,
  65536 and 18928 bytes. After the sub-packets comes \<^verbatim>\<open>DONE\<close>, unless the modification
  time does not fit 32 bits.
\<close>

theorem push_sends_fixed_chunks:
  assumes "\<not> closed s" and "incoming s = ''OKAY'' @ rest"
    and "encode target_path = Inr path"
    and "request = path @ '','' @ fmt_d (case mode_arg of None \<Rightarrow> 33261 | Some m \<Rightarrow> m)"
    and "length request < 4294967296"
    and "buffer \<noteq> []"
  shows "written (snd (push now s target_path buffer mode_arg mtime_arg)) =
           written s @ [''0005sync:'', ''SEND'' @ le32 (length request) @ request] @
           map data_packet (spec_chunks buffer) @
           (case pack_I (case mtime_arg of None \<Rightarrow> now | Some m \<Rightarrow> m) of
              Inl e \<Rightarrow> [] | Inr mt \<Rightarrow> [''DONE'' @ mt])
       \<and> concat (spec_chunks buffer) = buffer
       \<and> (\<forall>i. Suc i < length (spec_chunks buffer) \<longrightarrow>
              length (spec_chunks buffer ! i) = 65536)
       \<and> 0 < length (last (spec_chunks buffer))
       \<and> length (last (spec_chunks buffer)) \<le> 65536
       \<and> (length buffer = 150000 \<longrightarrow>
              map length (spec_chunks buffer) = [65536, 65536, 18928])"
  using push_written [OF assms(1-5), of now buffer mtime_arg]
    chunks_nonempty [OF assms(6)] spec_chunks_concat [of buffer]
    spec_chunks_full [of _ buffer] spec_chunks_last [OF assms(6)]
    spec_chunks_150000 [of buffer]
  by simp

theorem push_sends_fixed_chunks_witness:
  "\<not> closed \<lparr>written = [], incoming = ''OKAY'', closed = False\<rparr>
   \<and> encode (str ''/f'') = Inr ''/f''
   \<and> replicate 150000 (CHR ''a'') \<noteq> []
   \<and> length (replicate 150000 (CHR ''a'')) = 150000
   \<and> written (snd (push 0 \<lparr>written = [], incoming = ''OKAY'', closed = False\<rparr> (str ''/f'')
         (replicate 150000 (CHR ''a'')) None (Some 0))) =
       [''0005sync:'',
        ''SEND'' @ [CHR 0x08, CHR 0x00, CHR 0x00, CHR 0x00] @ ''/f,33261'',
        ''DATA'' @ [CHR 0x00, CHR 0x00, CHR 0x01, CHR 0x00] @ replicate 65536 (CHR ''a''),
        ''DATA'' @ [CHR 0x00, CHR 0x00, CHR 0x01, CHR 0x00] @ replicate 65536 (CHR ''a''),
        ''DATA'' @ [CHR 0xF0, CHR 0x49, CHR 0x00, CHR 0x00] @ replicate 18928 (CHR ''a''),
        ''DONE'' @ [CHR 0x00, CHR 0x00, CHR 0x00, CHR 0x00]]
   \<and> map length (spec_chunks (replicate 150000 (CHR ''a''))) = [65536, 65536, 18928]"
proof -
  have e: "encode (str ''/f'') = Inr ''/f''"
    by (simp add: encode_ascii)
  have sc: "spec_chunks (replicate 150000 (CHR ''a'')) =
     [replicate 65536 (CHR ''a''), replicate 65536 (CHR ''a''), replicate 18928 (CHR ''a'')]"
    by (simp add: spec_chunks_def upt_0_3)
  have le: "le32 65536 = [CHR 0x00, CHR 0x00, CHR 0x01, CHR 0x00]"
    by (simp add: le32_def char_of_eq_iff)
  have l8: "le32 (length ''/f,33261'') = [CHR 0x08, CHR 0x00, CHR 0x00, CHR 0x00]"
    using le32_8 by (simp add: eval_nat_numeral)
  show ?thesis
    using l8 push_sends_fixed_chunks
      [of "\<lparr>written = [], incoming = ''OKAY'', closed = False\<rparr>" "[]" "str ''/f''" "''/f''"
          "''/f,33261''" None "replicate 150000 (CHR ''a'')" 0 "Some 0"]
    by (simp add: e sc fmt_d_default le32_8 le le32_big le32_0 data_packet_def pack_I_def)
qed

text \<open>
  C2, as stated, fails: with an empty buffer \<^verbatim>\<open>np.array_split\<close> still returns one
  sub-array, the empty one, and the loop of \<^verbatim>\<open>push\<close> writes a \<^verbatim>\<open>DATA\<close> sub-packet of
  length 0 between the \<^verbatim>\<open>SEND\<close> header and the \<^verbatim>\<open>DONE\<close> trailer.
\<close>

theorem push_empty_buffer_counterexample:
  "written (snd (push 0 \<lparr>written = [], incoming = ''OKAYOKAY'' @ [CHR 0x00, CHR 0x00, CHR 0x00, CHR 0x00],
       closed = False\<rparr> (str ''/f'') [] None (Some 0))) =
     [''0005sync:'',
      ''SEND'' @ [CHR 0x08, CHR 0x00, CHR 0x00, CHR 0x00] @ ''/f,33261'',
      ''DATA'' @ [CHR 0x00, CHR 0x00, CHR 0x00, CHR 0x00],
      ''DONE'' @ [CHR 0x00, CHR 0x00, CHR 0x00, CHR 0x00]]
   \<and> array_split ([] :: bytes) (arange 65536 (length ([] :: bytes)) 65536) \<noteq> spec_chunks []"
proof -
  have e: "encode (str ''/f'') = Inr ''/f''"
    by (simp add: encode_ascii)
  have l8: "le32 (length ''/f,33261'') = [CHR 0x08, CHR 0x00, CHR 0x00, CHR 0x00]"
    using le32_8 by (simp add: eval_nat_numeral)
  have "written (snd (push 0 \<lparr>written = [], incoming = ''OKAYOKAY'' @ [CHR 0x00, CHR 0x00, CHR 0x00, CHR 0x00],
       closed = False\<rparr> (str ''/f'') [] None (Some 0))) =
     [''0005sync:'',
      ''SEND'' @ [CHR 0x08, CHR 0x00, CHR 0x00, CHR 0x00] @ ''/f,33261'',
      ''DATA'' @ [CHR 0x00, CHR 0x00, CHR 0x00, CHR 0x00],
      ''DONE'' @ [CHR 0x00, CHR 0x00, CHR 0x00, CHR 0x00]]"
    using l8 push_written [of "\<lparr>written = [], incoming = ''OKAYOKAY'' @ [CHR 0x00, CHR 0x00, CHR 0x00, CHR 0x00],
       closed = False\<rparr>" "''OKAY'' @ [CHR 0x00, CHR 0x00, CHR 0x00, CHR 0x00]" "str ''/f''" "''/f''"
       "''/f,33261''" None 0 "[]" "Some 0"]
    by (simp add: e fmt_d_default le32_0 chunks_empty data_packet_def pack_I_def)
  moreover have "array_split ([] :: bytes) (arange 65536 (length ([] :: bytes)) 65536) \<noteq> spec_chunks []"
    by (simp add: chunks_empty spec_chunks_def)
  ultimately show ?thesis by blast
qed

text \<open>
  C2, amended: with an empty buffer, on a connection that accepts \<^verbatim>\<open>sync:\<close>,
  \<^verbatim>\<open>push\<close> writes exactly one \<^verbatim>\<open>DATA\<close> sub-packet between the \<^verbatim>\<open>SEND\<close> header and
  the \<^verbatim>\<open>DONE\<close> trailer: the tag and the length 0, with no payload.
\<close>

theorem push_empty_buffer_one_data_packet:
  assumes "\<not> closed s" and "incoming s = ''OKAY'' @ rest"
    and "encode target_path = Inr path"
    and "request = path @ '','' @ fmt_d (case mode_arg of None \<Rightarrow> 33261 | Some m \<Rightarrow> m)"
    and "length request < 4294967296"
  shows "written (snd (push now s target_path [] mode_arg mtime_arg)) =
           written s @ [''0005sync:'', ''SEND'' @ le32 (length request) @ request] @
           [''DATA'' @ [CHR 0x00, CHR 0x00, CHR 0x00, CHR 0x00]] @
           (case pack_I (case mtime_arg of None \<Rightarrow> now | Some m \<Rightarrow> m) of
              Inl e \<Rightarrow> [] | Inr mt \<Rightarrow> [''DONE'' @ mt])"
  using push_written [OF assms, of now "[]" mtime_arg]
  by (simp add: chunks_empty data_packet_def le32_0)

theorem push_empty_buffer_one_data_packet_witness:
  "\<not> closed \<lparr>written = [], incoming = ''OKAYFAIL'', closed = False\<rparr>
   \<and> encode (str ''/x'') = Inr ''/x''
   \<and> written (snd (push 7 \<lparr>written = [], incoming = ''OKAYFAIL'', closed = False\<rparr> (str ''/x'')
         [] (Some 420) None)) =
       [''0005sync:'',
        ''SEND'' @ [CHR 0x06, CHR 0x00, CHR 0x00, CHR 0x00] @ ''/x,420'',
        ''DATA'' @ [CHR 0x00, CHR 0x00, CHR 0x00, CHR 0x00],
        ''DONE'' @ [CHR 0x07, CHR 0x00, CHR 0x00, CHR 0x00]]"
proof -
  have e: "encode (str ''/x'') = Inr ''/x''"
    by (simp add: encode_ascii)
  have f: "fmt_d 420 = ''420''"
    by (simp add: fmt_d_def dec_digits.simps decdigit_def)
  have "le32 6 = [CHR 0x06, CHR 0x00, CHR 0x00, CHR 0x00]"
    by (simp add: le32_def char_of_eq_iff)
  then have l6: "le32 (length ''/x,420'') = [CHR 0x06, CHR 0x00, CHR 0x00, CHR 0x00]"
    by (simp add: eval_nat_numeral)
  have l7: "le32 7 = [CHR 0x07, CHR 0x00, CHR 0x00, CHR 0x00]"
    by (simp add: le32_def char_of_eq_iff)
  show ?thesis
    using l6 push_empty_buffer_one_data_packet
      [of "\<lparr>written = [], incoming = ''OKAYFAIL'', closed = False\<rparr>" "''FAIL''" "str ''/x''"
          "''/x''" "''/x,420''" "Some 420" 7 None]
    by (simp add: e f l7 pack_I_def)
qed

text \<open>
  C4: when \<^verbatim>\<open>push\<close> has written \<^verbatim>\<open>DONE\<close> and the peer delivers eight more bytes, it
  reads exactly these eight bytes as the final status: it succeeds if the first four are
  \<^verbatim>\<open>OKAY\<close> and fails with \<^verbatim>\<open>RuntimeError('push failed')\<close> otherwise (the
  specification's \<^verbatim>\<open>ProtocolError\<close>), and in both cases the connection is closed and
  what follows the eight bytes is unread.
\<close>

theorem push_final_status:
  assumes "\<not> closed s" and "incoming s = ''OKAY'' @ status @ rest" and "length status = 8"
    and "encode target_path = Inr path"
    and "request = path @ '','' @ fmt_d (case mode_arg of None \<Rightarrow> 33261 | Some m \<Rightarrow> m)"
    and "length request < 4294967296"
    and "mtime = (case mtime_arg of None \<Rightarrow> now | Some m \<Rightarrow> m)"
    and "0 \<le> mtime" and "mtime < 4294967296"
  shows "fst (push now s target_path buffer mode_arg mtime_arg) =
           (if take 4 status = ''OKAY'' then Inr ()
            else Inl (RuntimeError (Str (str ''push failed''))))
       \<and> incoming (snd (push now s target_path buffer mode_arg mtime_arg)) = rest
       \<and> closed (snd (push now s target_path buffer mode_arg mtime_arg))"
proof -
  have pk: "pack_I (case mtime_arg of None \<Rightarrow> now | Some m \<Rightarrow> m) = Inr (le32 (nat mtime))"
    using assms(7-9) by (simp add: pack_I_def)
  show ?thesis
    unfolding push_to_loop [OF assms(1,2,4,5,6)] Let_def pk sum.case
    using assms(1,3) by (simp add: recvexactly_def close_def)
qed

theorem push_final_status_witness:
  "fst (push 0 \<lparr>written = [], incoming = ''OKAYOKAY____tail'', closed = False\<rparr> (str ''/f'')
          ''abc'' None (Some 0)) = Inr ()
   \<and> incoming (snd (push 0 \<lparr>written = [], incoming = ''OKAYOKAY____tail'', closed = False\<rparr>
          (str ''/f'') ''abc'' None (Some 0))) = ''tail''
   \<and> closed (snd (push 0 \<lparr>written = [], incoming = ''OKAYOKAY____tail'', closed = False\<rparr>
          (str ''/f'') ''abc'' None (Some 0)))
   \<and> fst (push 0 \<lparr>written = [], incoming = ''OKAYFAIL____tail'', closed = False\<rparr> (str ''/f'')
          ''abc'' None (Some 0)) = Inl (RuntimeError (Str (str ''push failed'')))
   \<and> incoming (snd (push 0 \<lparr>written = [], incoming = ''OKAYFAIL____tail'', closed = False\<rparr>
          (str ''/f'') ''abc'' None (Some 0))) = ''tail''
   \<and> closed (snd (push 0 \<lparr>written = [], incoming = ''OKAYFAIL____tail'', closed = False\<rparr>
          (str ''/f'') ''abc'' None (Some 0)))"
proof -
  let ?a = "\<lparr>written = [], incoming = ''OKAYOKAY____tail'', closed = False\<rparr>"
  let ?b = "\<lparr>written = [], incoming = ''OKAYFAIL____tail'', closed = False\<rparr>"
  have e: "encode (str ''/f'') = Inr ''/f''"
    by (simp add: encode_ascii)
  have rq: "''/f,33261'' = ''/f'' @ '','' @ fmt_d (case None of None \<Rightarrow> 33261 | Some m \<Rightarrow> m)"
    by (simp add: fmt_d_default)
  have ln: "length ''/f,33261'' < 4294967296" by simp
  have mt: "(0::int) = (case Some 0 of None \<Rightarrow> 0 | Some m \<Rightarrow> m)"
    and m0: "(0::int) \<le> 0" and m1: "(0::int) < 4294967296"
    by simp_all
  have a1: "\<not> closed ?a" and a2: "incoming ?a = ''OKAY'' @ ''OKAY____'' @ ''tail''"
    and a3: "length ''OKAY____'' = 8"
    by simp_all
  have b1: "\<not> closed ?b" and b2: "incoming ?b = ''OKAY'' @ ''FAIL____'' @ ''tail''"
    and b3: "length ''FAIL____'' = 8"
    by simp_all
  from push_final_status [OF a1 a2 a3 e rq ln mt m0 m1, of "''abc''"]
  have 1: "fst (push 0 ?a (str ''/f'') ''abc'' None (Some 0)) = Inr ()
     \<and> incoming (snd (push 0 ?a (str ''/f'') ''abc'' None (Some 0))) = ''tail''
     \<and> closed (snd (push 0 ?a (str ''/f'') ''abc'' None (Some 0)))"
    by simp
  from push_final_status [OF b1 b2 b3 e rq ln mt m0 m1, of "''abc''"]
  have 2: "fst (push 0 ?b (str ''/f'') ''abc'' None (Some 0)) =
              Inl (RuntimeError (Str (str ''push failed'')))
     \<and> incoming (snd (push 0 ?b (str ''/f'') ''abc'' None (Some 0))) = ''tail''
     \<and> closed (snd (push 0 ?b (str ''/f'') ''abc'' None (Some 0)))"
    by simp
  from 1 2 show ?thesis by simp
qed

text \<open>
  C3: for every buffer, every connection state and every outcome, each \<^verbatim>\<open>DATA\<close>
  sub-packet that \<^verbatim>\<open>push\<close> writes is the tag, the length of its payload in four
  little-endian bytes, and the payload, and the payload has at most 65536 bytes.
\<close>

theorem push_chunk_ceiling:
  "\<forall>p\<in>set (drop (length (written s))
               (written (snd (push now s target_path buffer mode_arg mtime_arg)))).
      take 4 p = ''DATA'' \<longrightarrow>
      (\<exists>c. p = ''DATA'' @ le32 (length c) @ c \<and> length c \<le> 65536)"
  using push_extends [of s now target_path buffer mode_arg mtime_arg]
  by (auto simp: extends_def data_bounded_def)

theorem push_chunk_ceiling_witness:
  "''DATA'' @ [CHR 0x03, CHR 0x00, CHR 0x00, CHR 0x00] @ ''abc''
     \<in> set (drop (length (written \<lparr>written = [''old''], incoming = ''OKAY'', closed = False\<rparr>))
          (written (snd (push 0 \<lparr>written = [''old''], incoming = ''OKAY'', closed = False\<rparr>
             (str ''/f'') ''abc'' None (Some 0)))))
   \<and> (\<exists>c. ''DATA'' @ [CHR 0x03, CHR 0x00, CHR 0x00, CHR 0x00] @ ''abc'' =
            ''DATA'' @ le32 (length c) @ c \<and> length c \<le> 65536)"
proof -
  let ?p = "''DATA'' @ [CHR 0x03, CHR 0x00, CHR 0x00, CHR 0x00] @ ''abc''"
  let ?s = "\<lparr>written = [''old''], incoming = ''OKAY'', closed = False\<rparr>"
  have m: "?p \<in> set (drop (length (written ?s))
          (written (snd (push 0 ?s (str ''/f'') ''abc'' None (Some 0)))))"
    unfolding push_small_written by simp
  have t: "take 4 ?p = ''DATA''" by simp
  from push_chunk_ceiling [of ?s 0 "str ''/f''" "''abc''" None "Some 0"] m t
  have "\<exists>c. ?p = ''DATA'' @ le32 (length c) @ c \<and> length c \<le> 65536"
    by blast
  with m show ?thesis by blast
qed

text \<open>
  C5: when the four bytes of the status are not \<^verbatim>\<open>OKAY\<close>, \<^verbatim>\<open>service\<close> never succeeds.
  When the status is followed by a four-byte length field that \<^verbatim>\<open>int(., 16)\<close> reads as
  \<open>L\<close>, it fails with \<^verbatim>\<open>RuntimeError\<close> (the specification's \<^verbatim>\<open>ProtocolError\<close>) whose
  argument is the payload: for the field \<^verbatim>\<open>0000\<close>, and any other field that reads as 0,
  the empty message, with nothing read after the field; for \<open>L > 0\<close>, the next \<open>L\<close> bytes
  exactly, when the peer delivers them.
\<close>

theorem service_fail_message:
  assumes "\<not> closed s" and "encode cmd = Inr cmdbytes"
    and "incoming s = status @ tail" and "length status = 4" and "status \<noteq> ''OKAY''"
  shows "(\<forall>x. fst (service s cmd) \<noteq> Inr x)
       \<and> (\<forall>rest. tail = ''0000'' @ rest \<longrightarrow>
             service s cmd =
               (Inl (RuntimeError (Bytes [])),
                s\<lparr>written := written s @ [frame cmdbytes], incoming := rest\<rparr>))
       \<and> (\<forall>lenfield rest L.
             tail = lenfield @ rest \<and> length lenfield = 4 \<and> int16 lenfield = Inr L \<longrightarrow>
             (L = 0 \<longrightarrow>
                service s cmd =
                  (Inl (RuntimeError (Bytes [])),
                   s\<lparr>written := written s @ [frame cmdbytes], incoming := rest\<rparr>))
           \<and> (0 < L \<and> nat L \<le> length rest \<longrightarrow>
                service s cmd =
                  (Inl (RuntimeError (Bytes (take (nat L) rest))),
                   s\<lparr>written := written s @ [frame cmdbytes],
                     incoming := drop (nat L) rest\<rparr>)))"
proof -
  let ?s1 = "s\<lparr>written := written s @ [frame cmdbytes], incoming := tail\<rparr>"
  note sv = service_not_okay [OF assms]
  have c: "\<not> closed ?s1" using assms(1) by simp
  have a: "\<forall>x. fst (service s cmd) \<noteq> Inr x"
    unfolding sv by (simp split: prod.splits sum.splits)
  have z: "service s cmd =
        (Inl (RuntimeError (Bytes [])),
         s\<lparr>written := written s @ [frame cmdbytes], incoming := rest\<rparr>)"
    if "tail = lenfield @ rest" "length lenfield = 4" "int16 lenfield = Inr 0"
    for lenfield rest
  proof -
    have "incoming ?s1 = lenfield @ rest" using that(1) by simp
    from read_hexlen_zero [OF c this that(2,3)] show ?thesis
      unfolding sv by simp
  qed
  have p: "service s cmd =
        (Inl (RuntimeError (Bytes (take (nat L) rest))),
         s\<lparr>written := written s @ [frame cmdbytes], incoming := drop (nat L) rest\<rparr>)"
    if "tail = lenfield @ rest" "length lenfield = 4" "int16 lenfield = Inr L"
       "0 < L" "nat L \<le> length rest"
    for lenfield rest L
  proof -
    have "incoming ?s1 = lenfield @ rest" using that(1) by simp
    from read_hexlen_payload [OF c this that(2-5)] show ?thesis
      unfolding sv by simp
  qed
  have z0: "service s cmd =
        (Inl (RuntimeError (Bytes [])),
         s\<lparr>written := written s @ [frame cmdbytes], incoming := rest\<rparr>)"
    if "tail = ''0000'' @ rest" for rest
    using z [OF that _ int16_0000] by simp
  from a z z0 p show ?thesis by blast
qed

theorem service_fail_message_witness:
  "\<not> closed \<lparr>written = [], incoming = ''FAIL000edevice offlineXY'', closed = False\<rparr>
   \<and> service \<lparr>written = [], incoming = ''FAIL000edevice offlineXY'', closed = False\<rparr>
         (str ''host:transport-any'') =
       (Inl (RuntimeError (Bytes ''device offline'')),
        \<lparr>written = [''0012host:transport-any''], incoming = ''XY'', closed = False\<rparr>)
   \<and> service \<lparr>written = [], incoming = ''FAIL0000XY'', closed = False\<rparr>
         (str ''host:transport-any'') =
       (Inl (RuntimeError (Bytes [])),
        \<lparr>written = [''0012host:transport-any''], incoming = ''XY'', closed = False\<rparr>)"
proof -
  have e: "encode (str ''host:transport-any'') = Inr ''host:transport-any''"
    by (simp add: encode_ascii)
  have f: "frame ''host:transport-any'' = ''0012host:transport-any''"
    by code_simp
  have i: "int16 ''000e'' = Inr 14"
    by (simp add: int16_def strip_sign_def strip_0x_def isspace_def digit_value_def)
  have i0: "''000edevice offlineXY'' = ''000e'' @ ''device offlineXY'' \<and> length ''000e'' = 4
      \<and> int16 ''000e'' = Inr 14"
    by (simp add: i)
  have o: "\<not> closed \<lparr>written = [], incoming = ''FAIL000edevice offlineXY'', closed = False\<rparr>"
    and inc: "incoming \<lparr>written = [], incoming = ''FAIL000edevice offlineXY'', closed = False\<rparr> =
           ''FAIL'' @ ''000edevice offlineXY''"
    and st: "length ''FAIL'' = 4" "''FAIL'' \<noteq> ''OKAY''"
    by simp_all
  have 1: "service \<lparr>written = [], incoming = ''FAIL000edevice offlineXY'', closed = False\<rparr>
         (str ''host:transport-any'') =
       (Inl (RuntimeError (Bytes ''device offline'')),
        \<lparr>written = [''0012host:transport-any''], incoming = ''XY'', closed = False\<rparr>)"
    using service_fail_message
      [OF o e inc st, THEN conjunct2, THEN conjunct2, rule_format, OF i0]
    by (simp add: f)
  have z0: "''0000XY'' = ''0000'' @ ''XY''"
    and o': "\<not> closed \<lparr>written = [], incoming = ''FAIL0000XY'', closed = False\<rparr>"
    and inc': "incoming \<lparr>written = [], incoming = ''FAIL0000XY'', closed = False\<rparr> =
           ''FAIL'' @ ''0000XY''"
    by simp_all
  have 2: "service \<lparr>written = [], incoming = ''FAIL0000XY'', closed = False\<rparr>
         (str ''host:transport-any'') =
       (Inl (RuntimeError (Bytes [])),
        \<lparr>written = [''0012host:transport-any''], incoming = ''XY'', closed = False\<rparr>)"
    using service_fail_message
      [OF o' e inc' st, THEN conjunct2, THEN conjunct1, rule_format, OF z0]
    by (simp add: f)
  from 1 2 show ?thesis by simp
qed

text \<open>
  C6: for a command whose encoding has at most \<^verbatim>\<open>0xFFFF\<close> bytes, \<^verbatim>\<open>service\<close> writes four
  hexadecimal digits and the bytes; \<^verbatim>\<open>int(., 16)\<close> reads the four digits as the number of
  bytes, and \<^verbatim>\<open>read_response\<close> on a stream that starts with what \<^verbatim>\<open>service\<close> wrote
  returns the bytes and leaves what follows them. For an ASCII command the number of
  bytes is the length of the command.
\<close>

theorem frame_roundtrip:
  assumes "encode c = Inr cmdbytes" and "length cmdbytes \<le> 65535"
    and "\<not> closed s" and "\<not> closed peer" and "incoming peer = frame cmdbytes @ rest"
  shows "written (snd (service s c)) = written s @ [frame cmdbytes]
       \<and> length (frame cmdbytes) = 4 + length cmdbytes
       \<and> int16 (take 4 (frame cmdbytes)) = Inr (int (length cmdbytes))
       \<and> drop 4 (frame cmdbytes) = cmdbytes
       \<and> read_response peer = (Inr cmdbytes, peer\<lparr>incoming := rest\<rparr>)
       \<and> ((\<forall>cp\<in>set c. cp < 128) \<longrightarrow> length cmdbytes = length c)"
proof -
  have n: "length cmdbytes < 65536" using assms(2) by simp
  note l4 = fmt_04X_length [OF n]
  have w: "written (snd (service s c)) = written s @ [frame cmdbytes]"
    by (rule service_written [OF assms(3,1)])
  have len: "length (frame cmdbytes) = 4 + length cmdbytes"
    by (simp add: frame_def l4)
  have tk: "take 4 (frame cmdbytes) = fmt_04X (length cmdbytes)"
    and dr: "drop 4 (frame cmdbytes) = cmdbytes"
    by (simp_all add: frame_def l4)
  have i: "int16 (fmt_04X (length cmdbytes)) = Inr (int (length cmdbytes))"
    by (rule int16_fmt_04X [OF n])
  have inc: "incoming peer = fmt_04X (length cmdbytes) @ cmdbytes @ rest"
    using assms(5) by (simp add: frame_def)
  have rd: "read_response peer = (Inr cmdbytes, peer\<lparr>incoming := rest\<rparr>)"
  proof (cases "cmdbytes = []")
    case True
    with read_hexlen_zero [OF assms(4) inc l4] i show ?thesis
      by (simp add: read_response_def)
  next
    case False
    then have "0 < int (length cmdbytes)" by simp
    from read_hexlen_payload [OF assms(4) inc l4 i this] show ?thesis
      by (simp add: read_response_def)
  qed
  have asc: "length cmdbytes = length c" if "\<forall>cp\<in>set c. cp < 128"
    using that assms(1)
  proof (induction c arbitrary: cmdbytes)
    case Nil
    then show ?case by simp
  next
    case (Cons cp t)
    then show ?case
      by (auto simp: encode_cp_def split: sum.splits)
  qed
  from w len tk dr i rd asc show ?thesis by simp
qed

theorem frame_roundtrip_witness:
  "encode (str ''host:devices'') = Inr ''host:devices''
   \<and> written (snd (service \<lparr>written = [], incoming = ''OKAY'', closed = False\<rparr>
         (str ''host:devices''))) = [''000Chost:devices'']
   \<and> int16 ''000C'' = Inr 12
   \<and> read_response \<lparr>written = [], incoming = ''000Chost:devicesXY'', closed = False\<rparr> =
       (Inr ''host:devices'', \<lparr>written = [], incoming = ''XY'', closed = False\<rparr>)"
proof -
  have e: "encode (str ''host:devices'') = Inr ''host:devices''"
    by (simp add: encode_ascii)
  have f: "frame ''host:devices'' = ''000Chost:devices''"
    by code_simp
  show ?thesis
    using frame_roundtrip
      [where c = "str ''host:devices''" and cmdbytes = "''host:devices''"
         and s = "\<lparr>written = [], incoming = ''OKAY'', closed = False\<rparr>"
         and peer = "\<lparr>written = [], incoming = ''000Chost:devicesXY'', closed = False\<rparr>"
         and rest = "''XY''"]
    by (simp add: e f)
qed

text \<open>
  C7: when the server answers \<^verbatim>\<open>OKAY\<close> and a length-prefixed payload, \<^verbatim>\<open>devices\<close>
  decodes the payload as text, splits the text into lines and every line at its tabs.
  For the payload of a device list (one line per device: serial, tab, state, newline)
  the result is the list of the pairs of serial and state, each as the two components of
  its tuple. The payload of the two devices \<^verbatim>\<open>emulator-5554\<close> and \<^verbatim>\<open>0123ABC\<close> gives
  their two pairs, and the empty payload gives the empty list.
\<close>

theorem devices_parses_lines:
  assumes "\<not> closed s" and "incoming s = ''OKAY'' @ lenfield @ payload @ rest"
    and "length lenfield = 4" and "int16 lenfield = Inr (int (length payload))"
    and s': "s' = s\<lparr>written := written s @ [''000Chost:devices''], incoming := rest\<rparr>"
  shows "(\<forall>resp. decode payload = Inr resp \<longrightarrow>
            devices s = (Inr (map (split_sep 0x09) (splitlines resp)), s'))
       \<and> (\<forall>ds. decode payload = Inr (device_lines ds) \<and>
                 (\<forall>d\<in>set ds. plain (fst d) \<and> plain (snd d)) \<longrightarrow>
            devices s = (Inr (map (\<lambda>d. [fst d, snd d]) ds), s'))
       \<and> (payload = ''emulator-5554'' @ [CHR 0x09] @ ''device'' @ [CHR 0x0A] @
                     ''0123ABC'' @ [CHR 0x09] @ ''unauthorized'' @ [CHR 0x0A] \<longrightarrow>
            devices s = (Inr [[str ''emulator-5554'', str ''device''],
                              [str ''0123ABC'', str ''unauthorized'']], s'))
       \<and> (payload = [] \<longrightarrow> devices s = (Inr [], s'))"
proof -
  note dr = devices_run [OF assms(1-4), folded s']
  have a: "devices s = (Inr (map (split_sep 0x09) (splitlines resp)), s')"
    if "decode payload = Inr resp" for resp
    unfolding dr that by simp
  have b: "devices s = (Inr (map (\<lambda>d. [fst d, snd d]) ds), s')"
    if "decode payload = Inr (device_lines ds)" "\<forall>d\<in>set ds. plain (fst d) \<and> plain (snd d)"
    for ds
    using a [OF that(1)] devices_of_lines [OF that(2)] by simp
  have c: "devices s = (Inr [[str ''emulator-5554'', str ''device''],
                              [str ''0123ABC'', str ''unauthorized'']], s')"
    if p: "payload = ''emulator-5554'' @ [CHR 0x09] @ ''device'' @ [CHR 0x0A] @
                     ''0123ABC'' @ [CHR 0x09] @ ''unauthorized'' @ [CHR 0x0A]"
  proof -
    have "decode payload = Inr (str payload)"
      unfolding p by (rule decode_ascii) simp
    then have "decode payload = Inr (device_lines
        [(str ''emulator-5554'', str ''device''), (str ''0123ABC'', str ''unauthorized'')])"
      unfolding p example_devices .
    from b [OF this] example_plain show ?thesis by simp
  qed
  have d: "devices s = (Inr [], s')" if "payload = []"
  proof -
    have "decode payload = Inr []" unfolding that by (simp add: decode_def)
    from a [OF this] show ?thesis by simp
  qed
  from a b c d show ?thesis by blast
qed

theorem devices_parses_lines_witness:
  "devices \<lparr>written = [],
            incoming = ''OKAY002a'' @ ''emulator-5554'' @ [CHR 0x09] @ ''device'' @ [CHR 0x0A] @
                       ''0123ABC'' @ [CHR 0x09] @ ''unauthorized'' @ [CHR 0x0A] @ ''more'',
            closed = False\<rparr> =
     (Inr [[str ''emulator-5554'', str ''device''], [str ''0123ABC'', str ''unauthorized'']],
      \<lparr>written = [''000Chost:devices''], incoming = ''more'', closed = False\<rparr>)
   \<and> devices \<lparr>written = [], incoming = ''OKAY0000'', closed = False\<rparr> =
     (Inr [], \<lparr>written = [''000Chost:devices''], incoming = [], closed = False\<rparr>)"
proof -
  let ?ex = "''emulator-5554'' @ [CHR 0x09] @ ''device'' @ [CHR 0x0A] @
             ''0123ABC'' @ [CHR 0x09] @ ''unauthorized'' @ [CHR 0x0A]"
  let ?s = "\<lparr>written = [], incoming = ''OKAY002a'' @ ?ex @ ''more'', closed = False\<rparr>"
  let ?z = "\<lparr>written = [], incoming = ''OKAY0000'', closed = False\<rparr>"
  have i: "int16 ''002a'' = Inr 42"
    by (simp add: int16_def strip_sign_def strip_0x_def isspace_def digit_value_def)
  have p1: "\<not> closed ?s" and p2: "incoming ?s = ''OKAY'' @ ''002a'' @ ?ex @ ''more''"
    and p3: "length ''002a'' = 4" and p4: "int16 ''002a'' = Inr (int (length ?ex))"
    by (simp_all add: i)
  have q1: "\<not> closed ?z" and q2: "incoming ?z = ''OKAY'' @ ''0000'' @ [] @ []"
    and q3: "length ''0000'' = 4" and q4: "int16 ''0000'' = Inr (int (length ([] :: bytes)))"
    by (simp_all add: int16_0000)
  from devices_parses_lines [OF p1 p2 p3 p4 refl, THEN conjunct2, THEN conjunct2,
      THEN conjunct1, THEN mp, OF refl]
  have 1: "devices ?s =
     (Inr [[str ''emulator-5554'', str ''device''], [str ''0123ABC'', str ''unauthorized'']],
      \<lparr>written = [''000Chost:devices''], incoming = ''more'', closed = False\<rparr>)"
    by simp
  from devices_parses_lines [OF q1 q2 q3 q4 refl, THEN conjunct2, THEN conjunct2,
      THEN conjunct2, THEN mp, OF refl]
  have 2: "devices ?z =
     (Inr [], \<lparr>written = [''000Chost:devices''], incoming = [], closed = False\<rparr>)"
    by simp
  from 1 2 show ?thesis by simp
qed


text \<open>
  C8: when the server answers \<^verbatim>\<open>OKAY\<close> and a length-prefixed payload, \<^verbatim>\<open>connect\<close> and
  \<^verbatim>\<open>disconnect\<close> fail with \<^verbatim>\<open>RuntimeError\<close> (the specification's
  \<^verbatim>\<open>ProtocolError\<close>), carrying the decoded text, exactly when \<^verbatim>\<open>unable\<close> or
  \<^verbatim>\<open>cannot\<close> occurs somewhere in that text; otherwise they succeed. The payload
  \<^verbatim>\<open>connected to ok:5555\<close> succeeds and \<^verbatim>\<open>unable to connect to x:5555\<close> raises.
\<close>

theorem connect_fails_on_unable_or_cannot:
  assumes "\<not> closed s" and "encode device = Inr dev"
    and "incoming s = ''OKAY'' @ lenfield @ payload @ rest" and "length lenfield = 4"
    and "int16 lenfield = Inr (int (length payload))"
    and resp: "resp = decode_ignore payload"
  shows "connect s device =
           (if (\<exists>pre post. resp = pre @ str ''unable'' @ post) \<or>
               (\<exists>pre post. resp = pre @ str ''cannot'' @ post)
            then Inl (RuntimeError (Str resp)) else Inr (),
            s\<lparr>written := written s @ [frame (''host:connect:'' @ dev)], incoming := rest\<rparr>)
       \<and> disconnect s device =
           (if (\<exists>pre post. resp = pre @ str ''unable'' @ post) \<or>
               (\<exists>pre post. resp = pre @ str ''cannot'' @ post)
            then Inl (RuntimeError (Str resp)) else Inr (),
            s\<lparr>written := written s @ [frame (''host:disconnect:'' @ dev)], incoming := rest\<rparr>)
       \<and> (payload = ''connected to ok:5555'' \<longrightarrow> fst (connect s device) = Inr ())
       \<and> (payload = ''unable to connect to x:5555'' \<longrightarrow>
            fst (connect s device) = Inl (RuntimeError (Str (str ''unable to connect to x:5555''))))"
proof -
  note rc = request_response [OF assms(1) encode_connect [OF assms(2)] assms(3-5)]
  note rd = request_response [OF assms(1) encode_disconnect [OF assms(2)] assms(3-5)]
  have c: "connect s device =
           (if contains resp (str ''unable'') \<or> contains resp (str ''cannot'')
            then Inl (RuntimeError (Str resp)) else Inr (),
            s\<lparr>written := written s @ [frame (''host:connect:'' @ dev)], incoming := rest\<rparr>)"
    by (simp only: connect_def rc prod.case sum.case Let_def resp [symmetric]) simp
  have d: "disconnect s device =
           (if contains resp (str ''unable'') \<or> contains resp (str ''cannot'')
            then Inl (RuntimeError (Str resp)) else Inr (),
            s\<lparr>written := written s @ [frame (''host:disconnect:'' @ dev)], incoming := rest\<rparr>)"
    by (simp only: disconnect_def rd prod.case sum.case Let_def resp [symmetric]) simp
  have ok: "fst (connect s device) = Inr ()" if p: "payload = ''connected to ok:5555''"
  proof -
    have "resp = str ''connected to ok:5555''"
      unfolding resp p by (rule decode_ignore_ascii) simp
    moreover have "\<not> contains (str ''connected to ok:5555'') (str ''unable'')"
      and "\<not> contains (str ''connected to ok:5555'') (str ''cannot'')"
      by (simp_all add: str_def)
    ultimately show ?thesis unfolding c by simp
  qed
  have un: "fst (connect s device) =
      Inl (RuntimeError (Str (str ''unable to connect to x:5555'')))"
    if p: "payload = ''unable to connect to x:5555''"
  proof -
    have "resp = str ''unable to connect to x:5555''"
      unfolding resp p by (rule decode_ignore_ascii) simp
    moreover have "contains (str ''unable to connect to x:5555'') (str ''unable'')"
      by (simp add: str_def)
    ultimately show ?thesis unfolding c by simp
  qed
  from c d ok un show ?thesis
    unfolding contains_iff by blast
qed

theorem connect_fails_on_unable_or_cannot_witness:
  "connect \<lparr>written = [], incoming = ''OKAY0014connected to ok:5555'', closed = False\<rparr>
       (str ''ok:5555'') =
     (Inr (), \<lparr>written = [''0014host:connect:ok:5555''], incoming = [], closed = False\<rparr>)
   \<and> connect \<lparr>written = [], incoming = ''OKAY001bunable to connect to x:5555'', closed = False\<rparr>
       (str ''x:5555'') =
     (Inl (RuntimeError (Str (str ''unable to connect to x:5555''))),
      \<lparr>written = [''0013host:connect:x:5555''], incoming = [], closed = False\<rparr>)"
proof -
  let ?a = "\<lparr>written = [], incoming = ''OKAY0014connected to ok:5555'', closed = False\<rparr>"
  let ?b = "\<lparr>written = [], incoming = ''OKAY001bunable to connect to x:5555'', closed = False\<rparr>"
  have i: "int16 ''0014'' = Inr 20" "int16 ''001b'' = Inr 27"
    by (simp_all add: int16_def strip_sign_def strip_0x_def isspace_def digit_value_def)
  have e: "encode (str ''ok:5555'') = Inr ''ok:5555''" "encode (str ''x:5555'') = Inr ''x:5555''"
    by (simp_all add: encode_ascii)
  have f: "frame ''host:connect:ok:5555'' = ''0014host:connect:ok:5555''"
    "frame ''host:connect:x:5555'' = ''0013host:connect:x:5555''"
    by code_simp+
  have r: "decode_ignore ''connected to ok:5555'' = str ''connected to ok:5555''"
    "decode_ignore ''unable to connect to x:5555'' = str ''unable to connect to x:5555''"
    by (simp_all add: decode_ignore_ascii)
  have a1: "\<not> closed ?a"
    and a2: "incoming ?a = ''OKAY'' @ ''0014'' @ ''connected to ok:5555'' @ []"
    and a3: "length ''0014'' = 4"
    and a4: "int16 ''0014'' = Inr (int (length ''connected to ok:5555''))"
    by (simp_all add: i)
  have b1: "\<not> closed ?b"
    and b2: "incoming ?b = ''OKAY'' @ ''001b'' @ ''unable to connect to x:5555'' @ []"
    and b3: "length ''001b'' = 4"
    and b4: "int16 ''001b'' = Inr (int (length ''unable to connect to x:5555''))"
    by (simp_all add: i)
  have no: "\<not> contains (str ''connected to ok:5555'') (str ''unable'')"
      "\<not> contains (str ''connected to ok:5555'') (str ''cannot'')"
    and yes: "contains (str ''unable to connect to x:5555'') (str ''unable'')"
    by (simp_all add: str_def)
  from connect_fails_on_unable_or_cannot [OF a1 e(1) a2 a3 a4 r(1) [symmetric], THEN conjunct1]
    no [unfolded contains_iff]
  have 1: "connect ?a (str ''ok:5555'') =
     (Inr (), \<lparr>written = [''0014host:connect:ok:5555''], incoming = [], closed = False\<rparr>)"
    by (simp add: f)
  from connect_fails_on_unable_or_cannot [OF b1 e(2) b2 b3 b4 r(2) [symmetric], THEN conjunct1]
    yes [unfolded contains_iff]
  have 2: "connect ?b (str ''x:5555'') =
     (Inl (RuntimeError (Str (str ''unable to connect to x:5555''))),
      \<lparr>written = [''0013host:connect:x:5555''], incoming = [], closed = False\<rparr>)"
    by (simp add: f)
  from 1 2 show ?thesis by simp
qed

end
